theory Spec2Isabelle
  imports Main "HOL-Library.Sublist" "HOL-Library.Char_ord" "HOL-Library.List_Lexorder"
begin

section \<open>Paths: the part of Go's \<open>strings\<close> and \<open>path/filepath\<close> that the model package uses\<close>

text \<open>
  Paths are Go strings, that is byte sequences: \<^typ>\<open>string\<close>. The separator is
  \<open>os.PathSeparator\<close> on Unix, the byte \<open>/\<close>. \<open>strings.HasPrefix s p\<close> is
  \<^term>\<open>prefix p s\<close>, \<open>strings.HasSuffix s p\<close> is \<^term>\<open>suffix p s\<close>.

  \<open>splitSep\<close> is \<open>strings.Split(s, "/")\<close> and \<open>joinSep\<close> is \<open>strings.Join(xs, "/")\<close>.
\<close>

fun splitSep :: "string \<Rightarrow> string list" where
  "splitSep [] = [[]]"
| "splitSep (c # cs) =
     (if c = CHR ''/'' then [] # splitSep cs
      else (case splitSep cs of [] \<Rightarrow> [[c]] | w # ws \<Rightarrow> (c # w) # ws))"

fun joinSep :: "string list \<Rightarrow> string" where
  "joinSep [] = []"
| "joinSep [x] = x"
| "joinSep (x # y # ys) = x @ CHR ''/'' # joinSep (y # ys)"

text \<open>
  \<open>filepath.Clean\<close> on Unix, as its documentation defines it: separators are collapsed,
  every \<open>.\<close> element is dropped, every inner \<open>..\<close> is dropped together with the
  element before it, a \<open>..\<close> that begins a rooted path is dropped, and a relative path
  keeps the \<open>..\<close> elements it cannot cancel. The result ends in a separator only when it is
  the root, and the empty result is \<open>.\<close>. \<open>cleanElems rooted out es\<close> runs over the
  elements \<open>es\<close> with the elements written so far in \<open>out\<close>, last one first.
\<close>

fun cleanElems :: "bool \<Rightarrow> string list \<Rightarrow> string list \<Rightarrow> string list" where
  "cleanElems rooted out [] = rev out"
| "cleanElems rooted out (e # es) =
     (if e = [] \<or> e = ''.'' then cleanElems rooted out es
      else if e = ''..'' then
        (case out of
           [] \<Rightarrow> cleanElems rooted (if rooted then [] else [''..'']) es
         | t # ts \<Rightarrow>
             if t = ''..'' then cleanElems rooted (''..'' # out) es
             else cleanElems rooted ts es)
      else cleanElems rooted (e # out) es)"

definition Clean :: "string \<Rightarrow> string" where
  "Clean path =
     (if path = [] then ''.''
      else if hd path = CHR ''/''
        then CHR ''/'' # joinSep (cleanElems True [] (splitSep path))
      else (let body = joinSep (cleanElems False [] (splitSep path))
            in if body = [] then ''.'' else body))"

text \<open>
  \<open>filepath.Dir\<close>: everything up to and including the last separator, cleaned. So
  \<open>Dir "/a/b" = "/a"\<close>, \<open>Dir "/a" = "/"\<close>, \<open>Dir "/" = "/"\<close> and \<open>Dir "a" = "."\<close>.
\<close>

definition Dir :: "string \<Rightarrow> string" where
  "Dir path = Clean (rev (dropWhile (\<lambda>c. c \<noteq> CHR ''/'') (rev path)))"

text \<open>\<open>filepath.Join\<close> of two elements: empty elements are ignored, the rest is joined
  by the separator and cleaned.\<close>

definition Join :: "string \<Rightarrow> string \<Rightarrow> string" where
  "Join a b =
     (if a \<noteq> [] then Clean (a @ CHR ''/'' # b)
      else if b \<noteq> [] then Clean b
      else [])"

text \<open>
  \<open>filepath.Rel\<close> on Unix: both paths are cleaned; equal paths give \<open>.\<close>; a rooted and
  an unrooted path cannot be related (the error is \<open>None\<close>); otherwise the common leading
  elements are dropped, each element left of the base becomes \<open>..\<close> (an error if the
  base's first remaining element is itself \<open>..\<close>), and the rest of the target follows.
\<close>

fun stripCommon :: "string list \<Rightarrow> string list \<Rightarrow> string list \<times> string list" where
  "stripCommon (b # bs) (t # ts) = (if b = t then stripCommon bs ts else (b # bs, t # ts))"
| "stripCommon bs ts = (bs, ts)"

definition relElems :: "string \<Rightarrow> string list" where
  "relElems p = (if p = [] then [] else if p = ''/'' then [[]] else splitSep p)"

definition Rel :: "string \<Rightarrow> string \<Rightarrow> string option" where
  "Rel basepath targpath =
     (let base = Clean basepath; targ = Clean targpath in
      if targ = base then Some ''.''
      else
        let base = (if base = ''.'' then [] else base) in
        if (base \<noteq> [] \<and> hd base = CHR ''/'') \<noteq> (targ \<noteq> [] \<and> hd targ = CHR ''/'') then None
        else
          (case stripCommon (relElems base) (relElems targ) of
             (bs, ts) \<Rightarrow>
               if bs \<noteq> [] \<and> hd bs = ''..'' then None
               else if bs \<noteq> [] then Some (joinSep (replicate (length bs) ''..'' @ ts))
               else Some (joinSep ts)))"

text \<open>
  \<open>strings.ToLower\<close> on the ASCII letters; bytes outside \<open>A\<close>..\<open>Z\<close> are kept (Go also
  lowers non-ASCII letters, which no theorem below depends on). \<open>strings.Contains s sub\<close>
  holds when \<open>sub\<close> occurs in \<open>s\<close> as a contiguous block.
\<close>

definition lowerChar :: "char \<Rightarrow> char" where
  "lowerChar c =
     (if CHR ''A'' \<le> c \<and> c \<le> CHR ''Z'' then char_of (of_char c + (32::nat)) else c)"

definition ToLower :: "string \<Rightarrow> string" where
  "ToLower s = map lowerChar s"

definition Contains :: "string \<Rightarrow> string \<Rightarrow> bool" where
  "Contains s sub \<longleftrightarrow> (\<exists>t\<in>set (suffixes s). prefix sub t)"

text \<open>Auxiliary notions for stating properties of paths: an ordinary path element, an
  absolute path built from elements, a clean absolute path, and a directory path followed by
  the separator that introduces its entries.\<close>

definition okSeg :: "string \<Rightarrow> bool" where
  "okSeg x \<longleftrightarrow> x \<noteq> [] \<and> CHR ''/'' \<notin> set x \<and> x \<noteq> ''.'' \<and> x \<noteq> ''..''"

definition abspath :: "string list \<Rightarrow> string" where
  "abspath xs = CHR ''/'' # joinSep xs"

definition cleanAbs :: "string \<Rightarrow> bool" where
  "cleanAbs p \<longleftrightarrow> p \<noteq> [] \<and> hd p = CHR ''/'' \<and> Clean p = p"

definition rootSlash :: "string \<Rightarrow> string" where
  "rootSlash d = (if d = ''/'' then ''/'' else d @ ''/'')"

section \<open>The ignore predicate: \<open>git.ParseGitignore\<close> and \<open>regexp.MatchString\<close>\<close>

text \<open>
  \<open>ParseGitignore\<close> quotes every pattern line with \<open>regexp.QuoteMeta\<close>, turns each quoted
  \<open>*\<close> into \<open>.*\<close> and joins the lines by \<open>|\<close>. The compiled expression is therefore an
  alternation of sequences of literal bytes and \<open>.*\<close>, without anchors. \<open>.\<close> does not match
  a newline. \<open>matchHere ts s\<close> holds when a prefix of \<open>s\<close> matches the sequence \<open>ts\<close>;
  \<open>MatchString\<close> looks for a match anywhere in the string, as Go does. The argument of
  \<open>ParseGitignore\<close> is the list of the file's lines after \<open>strings.TrimSpace\<close>, or
  \<open>None\<close> when the file cannot be read; the result \<open>None\<close> is Go's nil expression.
\<close>

datatype retok = Lit char | AnyStar

type_synonym regexp = "retok list list"

fun matchHere :: "retok list \<Rightarrow> string \<Rightarrow> bool" where
  "matchHere [] s = True"
| "matchHere (Lit c # ts) [] = False"
| "matchHere (Lit c # ts) (d # s) = (c = d \<and> matchHere ts s)"
| "matchHere (AnyStar # ts) [] = matchHere ts []"
| "matchHere (AnyStar # ts) (d # s) =
     (matchHere ts (d # s) \<or> (d \<noteq> CHR 0x0A \<and> matchHere (AnyStar # ts) s))"

definition MatchString :: "regexp \<Rightarrow> string \<Rightarrow> bool" where
  "MatchString re s \<longleftrightarrow> (\<exists>t\<in>set (suffixes s). \<exists>p\<in>set re. matchHere p t)"

definition quotePattern :: "string \<Rightarrow> retok list" where
  "quotePattern line = map (\<lambda>c. if c = CHR ''*'' then AnyStar else Lit c) line"

definition ParseGitignore :: "string list option \<Rightarrow> regexp option" where
  "ParseGitignore data =
     (case data of
        None \<Rightarrow> None
      | Some lines \<Rightarrow>
          (let patterns = map quotePattern (filter (\<lambda>l. l \<noteq> [] \<and> \<not> prefix ''#'' l) lines)
           in if patterns = [] then None else Some patterns))"

section \<open>The data model: \<open>ui.FileItem\<close> and \<open>model.Model\<close>\<close>

record FileItem =
  Path :: string
  Name :: string
  IsDir :: bool
  Selected :: bool
  Depth :: int
  Expanded :: bool
  GitIgnored :: bool
  ChildrenLoaded :: bool
  MatchesContent :: bool

text \<open>
  The fields of \<open>Model\<close> that the tree store, the projector, the selection engine and the
  search engine read or write. \<open>listItems\<close> is the item list of the list widget
  (\<open>m.list.Items()\<close>, set by \<open>m.list.SetItems\<close>); its cursor, the terminal size, the
  spinner, the status line with its expiry time, the bookmark store and the selection
  statistics that \<open>refreshSelectionStats\<close> recomputes from \<open>os.Stat\<close> are display state
  and are left out.
\<close>

record Model =
  items :: "FileItem list"
  listItems :: "FileItem list"
  cwd :: string
  gitignoreRegexp :: "regexp option"
  showHiddenFiles :: bool
  isLoading :: bool
  loadingMessage :: string
  errors :: "string list"
  showErrors :: bool
  contentSearchMode :: bool
  isInSearchResults :: bool

text \<open>The file system the program reads: \<open>os.ReadDir\<close> (an error text or the entries, in
  the order returned), \<open>os.Stat(...).Size()\<close> and \<open>os.ReadFile\<close> (\<open>None\<close> is an error).\<close>

record DirEntry =
  entName :: string
  entIsDir :: bool
  entInfoOk :: bool

record FileSys =
  readDir :: "string \<Rightarrow> string + DirEntry list"
  statSize :: "string \<Rightarrow> int option"
  readFile :: "string \<Rightarrow> string option"

datatype Cmd = LoadChildrenCmd string

datatype Msg = ErrMsg string | ChildrenLoadedMsg string "FileItem list"

section \<open>Tree store, projector and selection engine\<close>

text \<open>The first index at which a predicate holds: the loops of the form
  \<open>for i := range m.items { if ... { ...; break } }\<close>.\<close>

fun findIdx :: "('a \<Rightarrow> bool) \<Rightarrow> 'a list \<Rightarrow> nat option" where
  "findIdx P [] = None"
| "findIdx P (x # xs) = (if P x then Some 0 else map_option Suc (findIdx P xs))"

definition isGitIgnored :: "Model \<Rightarrow> string \<Rightarrow> bool" where
  "isGitIgnored m path =
     (case gitignoreRegexp m of None \<Rightarrow> False | Some re \<Rightarrow> MatchString re path)"

definition addError :: "Model \<Rightarrow> string \<Rightarrow> Model" where
  "addError m err = m\<lparr>errors := errors m @ [err], showErrors := True\<rparr>"

text \<open>
  \<open>isVisible\<close>: an item of depth 0 is visible; otherwise the loop walks up from the
  item's directory until it reaches \<open>cwd\<close> or \<open>.\<close>, and fails at the first directory
  that is missing from the store or collapsed. The loop need not end (the parent of \<open>/\<close> is
  \<open>/\<close>), hence the result is an option and \<open>None\<close> stands for a loop that never returns.
\<close>

partial_function (option) isVisibleFrom :: "Model \<Rightarrow> string \<Rightarrow> bool option" where
  "isVisibleFrom m parentPath =
     (if parentPath \<noteq> cwd m \<and> parentPath \<noteq> ''.'' then
        (case find (\<lambda>it. Path it = parentPath \<and> IsDir it) (items m) of
           None \<Rightarrow> Some False
         | Some d \<Rightarrow> if \<not> Expanded d then Some False else isVisibleFrom m (Dir parentPath))
      else Some True)"

declare isVisibleFrom.simps [code]

definition isVisible :: "Model \<Rightarrow> FileItem \<Rightarrow> bool option" where
  "isVisible m item = (if Depth item = 0 then Some True else isVisibleFrom m (Dir (Path item)))"

text \<open>
  \<open>refreshVisibleItems\<close>: every visible item whose path is the path of a selected item is
  marked selected and appended to the new list of the widget. \<open>refreshFrom m sel its\<close> is
  the loop over the items \<open>its\<close>; it returns the items as rewritten and the visible ones.
  The visibility test reads only paths, kinds, depths and expansion flags, which the loop
  does not write, so it is evaluated in the model \<open>m\<close> at loop entry.
\<close>

fun refreshFrom :: "Model \<Rightarrow> string list \<Rightarrow> FileItem list \<Rightarrow> (FileItem list \<times> FileItem list) option" where
  "refreshFrom m sel [] = Some ([], [])"
| "refreshFrom m sel (it # rest) =
     (case isVisible m it of
        None \<Rightarrow> None
      | Some v \<Rightarrow>
          (case refreshFrom m sel rest of
             None \<Rightarrow> None
           | Some (its, vis) \<Rightarrow>
               (let it' = (if v \<and> Path it \<in> set sel then it\<lparr>Selected := True\<rparr> else it)
                in Some (it' # its, if v then it' # vis else vis))))"

definition refreshVisibleItems :: "Model \<Rightarrow> Model option" where
  "refreshVisibleItems m =
     (let selectedItems = map Path (filter Selected (items m)) in
      case refreshFrom m selectedItems (items m) of
        None \<Rightarrow> None
      | Some (its, visible) \<Rightarrow> Some (m\<lparr>items := its, listItems := visible\<rparr>))"

definition getAllDescendants :: "Model \<Rightarrow> string \<Rightarrow> FileItem list" where
  "getAllDescendants m parentPath =
     filter (\<lambda>it. prefix (parentPath @ ''/'') (Path it)) (items m)"

definition areAllDescendantsSelected :: "Model \<Rightarrow> string \<Rightarrow> bool" where
  "areAllDescendantsSelected m parentPath =
     (let descendants = getAllDescendants m parentPath in
      if descendants = [] then False
      else list_all (\<lambda>desc.
             isGitIgnored m (Path desc) \<or>
             (case find (\<lambda>it. Path it = Path desc) (items m) of
                None \<Rightarrow> True
              | Some it \<Rightarrow> Selected it)) descendants)"

definition setSelectionStateForDescendants :: "Model \<Rightarrow> string \<Rightarrow> bool \<Rightarrow> Model" where
  "setSelectionStateForDescendants m parentPath selected =
     m\<lparr>items := map (\<lambda>it.
            if prefix (parentPath @ ''/'') (Path it) \<and> \<not> isGitIgnored m (Path it)
            then it\<lparr>Selected := selected\<rparr> else it) (items m)\<rparr>"

text \<open>\<open>updateParentSelectionState\<close> recurses on the parent directory for as long as the
  parent is an entry of the store; like \<open>isVisible\<close> it need not return.\<close>

partial_function (option) updateParentSelectionState :: "Model \<Rightarrow> string \<Rightarrow> Model option" where
  "updateParentSelectionState m childPath =
     (let parentPath = Dir childPath in
      if parentPath = cwd m then Some m
      else
        (case findIdx (\<lambda>it. Path it = parentPath \<and> IsDir it) (items m) of
           None \<Rightarrow> Some m
         | Some i \<Rightarrow>
             updateParentSelectionState
               (m\<lparr>items := (items m)[i := (items m ! i)
                     \<lparr>Selected := areAllDescendantsSelected m parentPath\<rparr>]\<rparr>)
               parentPath))"

declare updateParentSelectionState.simps [code]

text \<open>\<open>toggleSelection(path, forceSelect...)\<close>: the optional argument is \<open>None\<close> when
  absent.\<close>

definition toggleSelection :: "Model \<Rightarrow> string \<Rightarrow> bool option \<Rightarrow> Model option" where
  "toggleSelection m path forceSelect =
     (case findIdx (\<lambda>it. Path it = path) (items m) of
        None \<Rightarrow> Some m
      | Some i \<Rightarrow>
          (let currentItem = items m ! i in
           if isGitIgnored m (Path currentItem) then Some m
           else
             (let force = (forceSelect \<noteq> None);
                  forceValue = (forceSelect = Some True);
                  m1 =
                    (if IsDir currentItem then
                       (if (Selected currentItem \<and> \<not> force) \<or> (force \<and> \<not> forceValue) then
                          setSelectionStateForDescendants
                            (m\<lparr>items := (items m)[i := currentItem\<lparr>Selected := False\<rparr>]\<rparr>)
                            (Path currentItem) False
                        else
                          setSelectionStateForDescendants
                            (m\<lparr>items := (items m)[i := currentItem\<lparr>Selected := True\<rparr>]\<rparr>)
                            (Path currentItem) True)
                     else if force then
                       m\<lparr>items := (items m)[i := currentItem\<lparr>Selected := forceValue\<rparr>]\<rparr>
                     else
                       m\<lparr>items := (items m)[i := currentItem\<lparr>Selected := \<not> Selected currentItem\<rparr>]\<rparr>)
              in case updateParentSelectionState m1 path of
                   None \<Rightarrow> None
                 | Some m2 \<Rightarrow> refreshVisibleItems m2)))"

text \<open>\<open>selectAll\<close> ranges over the widget's items as they are when it starts;
  \<open>selectAllFrom\<close> is its loop.\<close>

fun selectAllFrom :: "Model \<Rightarrow> FileItem list \<Rightarrow> Model option" where
  "selectAllFrom m [] = Some m"
| "selectAllFrom m (fileItem # rest) =
     (if \<not> isGitIgnored m (Path fileItem) then
        (case toggleSelection m (Path fileItem) (Some True) of
           None \<Rightarrow> None
         | Some m' \<Rightarrow> selectAllFrom m' rest)
      else selectAllFrom m rest)"

definition selectAll :: "Model \<Rightarrow> Model option" where
  "selectAll m = selectAllFrom m (listItems m)"

definition deselectAll :: "Model \<Rightarrow> Model option" where
  "deselectAll m = refreshVisibleItems (m\<lparr>items := map (\<lambda>it. it\<lparr>Selected := False\<rparr>) (items m)\<rparr>)"

text \<open>\<open>selectByExtension\<close>: the loop reads path and kind of each item, which no toggle
  changes, so it runs over the items at entry.\<close>

fun selectByExtensionFrom :: "Model \<Rightarrow> string \<Rightarrow> FileItem list \<Rightarrow> Model option" where
  "selectByExtensionFrom m ext [] = Some m"
| "selectByExtensionFrom m ext (it # rest) =
     (if \<not> IsDir it \<and> suffix (ToLower ext) (ToLower (Path it)) then
        (case toggleSelection m (Path it) (Some True) of
           None \<Rightarrow> None
         | Some m' \<Rightarrow> selectByExtensionFrom m' ext rest)
      else selectByExtensionFrom m ext rest)"

definition selectByExtension :: "Model \<Rightarrow> string \<Rightarrow> Model option" where
  "selectByExtension m ext =
     selectByExtensionFrom m (if \<not> prefix ''.'' ext then ''.'' @ ext else ext) (items m)"

section \<open>Stores as the loaders build them\<close>

text \<open>
  The store the loaders produce: no two entries share a path, every path is a clean
  absolute path other than the root of the file system, and the directory of every entry is
  either \<open>cwd\<close> or a directory entry of the store.
\<close>

definition wfStore :: "string \<Rightarrow> FileItem list \<Rightarrow> bool" where
  "wfStore root its \<longleftrightarrow>
     distinct (map Path its) \<and>
     (\<forall>it\<in>set its. cleanAbs (Path it) \<and> Path it \<noteq> ''/'' \<and>
        (Dir (Path it) = root \<or> (\<exists>d\<in>set its. IsDir d \<and> Path d = Dir (Path it))))"

text \<open>
  The directories strictly between the root and a path: the proper prefixes of the path that
  are followed by a separator and lie below the root. \<open>openDir\<close> says that a path is the
  path of an expanded directory of the store.
\<close>

definition ancestorDirs :: "string \<Rightarrow> string \<Rightarrow> string list" where
  "ancestorDirs root p =
     filter (\<lambda>a. prefix (rootSlash root) a \<and> a \<noteq> root \<and> prefix (a @ ''/'') p) (prefixes p)"

definition openDir :: "FileItem list \<Rightarrow> string \<Rightarrow> bool" where
  "openDir its a \<longleftrightarrow> (\<exists>d\<in>set its. Path d = a \<and> IsDir d \<and> Expanded d)"

text \<open>
  The weaker condition under which visibility is characterised: no two entries share a path,
  \<open>cwd\<close> is a clean absolute path and every entry's path is a clean absolute path
  strictly below it. Nothing is said about the parents of the entries: the directory of an
  entry may be missing from the store.
\<close>

definition treeStore :: "string \<Rightarrow> FileItem list \<Rightarrow> bool" where
  "treeStore root its \<longleftrightarrow>
     distinct (map Path its) \<and> cleanAbs root \<and>
     (\<forall>it\<in>set its. cleanAbs (Path it) \<and> prefix (rootSlash root) (Path it) \<and> Path it \<noteq> root)"

section \<open>Selection operations as steps, and example stores\<close>

text \<open>The selection operations the key handler of \<open>Update\<close> dispatches to, as one step
  function.\<close>

datatype SelOp = Toggle string "bool option" | SelectAll | DeselectAll | SelectByExtension string

fun applySelOp :: "Model \<Rightarrow> SelOp \<Rightarrow> Model option" where
  "applySelOp m (Toggle path forceSelect) = toggleSelection m path forceSelect"
| "applySelOp m SelectAll = selectAll m"
| "applySelOp m DeselectAll = deselectAll m"
| "applySelOp m (SelectByExtension ext) = selectByExtension m ext"

text \<open>Constructors for example stores: an unselected, collapsed, unloaded item, and a model
  whose widget shows the items of depth 0, as \<open>New\<close> builds it.\<close>

definition mkItem :: "string \<Rightarrow> string \<Rightarrow> bool \<Rightarrow> int \<Rightarrow> FileItem" where
  "mkItem path name isDir depth =
     \<lparr>Path = path, Name = name, IsDir = isDir, Selected = False, Depth = depth,
      Expanded = False, GitIgnored = False, ChildrenLoaded = False, MatchesContent = False\<rparr>"

definition mkModel :: "string \<Rightarrow> regexp option \<Rightarrow> FileItem list \<Rightarrow> Model" where
  "mkModel root re its =
     \<lparr>items = its, listItems = filter (\<lambda>it. Depth it = 0) its, cwd = root,
      gitignoreRegexp = re, showHiddenFiles = False, isLoading = False, loadingMessage = [],
      errors = [], showErrors = False, contentSearchMode = False, isInSearchResults = False\<rparr>"

definition exItems :: "FileItem list" where
  "exItems =
     [(mkItem ''/proj/src'' ''src'' True 0)\<lparr>Expanded := True, ChildrenLoaded := True\<rparr>,
      mkItem ''/proj/src/main.go'' ''main.go'' False 1,
      mkItem ''/proj/src2'' ''src2'' True 0,
      mkItem ''/proj/README.md'' ''README.md'' False 0,
      mkItem ''/proj/src2/b.go'' ''b.go'' False 1]"

definition exModel :: Model where
  "exModel = mkModel ''/proj'' None exItems"

text \<open>A store with an ignored directory: \<open>.gitignore\<close> holds the line \<open>vendor\<close>.\<close>

definition ignItems :: "FileItem list" where
  "ignItems =
     [(mkItem ''/proj/src'' ''src'' True 0)\<lparr>Expanded := True, ChildrenLoaded := True\<rparr>,
      mkItem ''/proj/src/main.go'' ''main.go'' False 1,
      (mkItem ''/proj/src/vendor'' ''vendor'' True 1)\<lparr>GitIgnored := True\<rparr>,
      (mkItem ''/proj/src/vendor/lib.go'' ''lib.go'' False 2)\<lparr>GitIgnored := True\<rparr>]"

definition ignModel :: Model where
  "ignModel = mkModel ''/proj'' (ParseGitignore (Some [''vendor''])) ignItems"


text \<open>A store in which the directory \<open>/proj/x\<close> of the entry \<open>/proj/x/y.txt\<close> is
  missing, \<open>/proj/src\<close> is expanded and \<open>/proj/lib\<close> is collapsed.\<close>

definition orphanModel :: Model where
  "orphanModel =
     mkModel ''/proj'' None
       [mkItem ''/proj/f'' ''f'' False 0,
        mkItem ''/proj/x/y.txt'' ''y.txt'' False 1,
        (mkItem ''/proj/src'' ''src'' True 0)\<lparr>Expanded := True, ChildrenLoaded := True\<rparr>,
        mkItem ''/proj/src/main.go'' ''main.go'' False 1,
        mkItem ''/proj/lib'' ''lib'' True 0,
        mkItem ''/proj/lib/a.go'' ''a.go'' False 1]"

section \<open>Cascade consistency\<close>






section \<open>Lazy loading: \<open>ui.LoadDirectoryChildren\<close>, \<open>toggleExpansion\<close> and \<open>Update\<close>\<close>

definition isHiddenFile :: "string \<Rightarrow> bool" where
  "isHiddenFile name \<longleftrightarrow> prefix ''.'' name"

text \<open>
  \<open>LoadDirectoryChildren\<close>: the error of \<open>os.ReadDir\<close> is wrapped and returned; otherwise
  the depth of the children is computed, once, from \<open>filepath.Rel(dirPath, dirPath)\<close>, and
  one item is built for each entry that is not hidden and whose \<open>Info\<close> call succeeds.
\<close>

definition LoadDirectoryChildren ::
  "FileSys \<Rightarrow> string \<Rightarrow> regexp option \<Rightarrow> bool \<Rightarrow> string + FileItem list" where
  "LoadDirectoryChildren fs dirPath gitRegex showHidden =
     (case readDir fs dirPath of
        Inl err \<Rightarrow> Inl (''error reading directory '' @ dirPath @ '': '' @ err)
      | Inr entries \<Rightarrow>
          (let rel = (case Rel dirPath dirPath of None \<Rightarrow> dirPath | Some r \<Rightarrow> r);
               baseDepth0 = int (length (splitSep rel));
               baseDepth = (if baseDepth0 = 0 then 1 else baseDepth0)
           in Inr (concat (map (\<lambda>entry.
                let name = entName entry; path = Join dirPath name in
                if \<not> showHidden \<and> isHiddenFile name then []
                else if \<not> entInfoOk entry then []
                else [\<lparr>Path = path, Name = name, IsDir = entIsDir entry, Selected = False,
                       Depth = baseDepth, Expanded = False,
                       GitIgnored = (case gitRegex of None \<Rightarrow> False
                                     | Some re \<Rightarrow> MatchString re path),
                       ChildrenLoaded = False, MatchesContent = False\<rparr>]) entries))))"

text \<open>
  \<open>toggleExpansion\<close> flips the expansion flag of the first item with the given path if it
  is a directory, refreshes the projection, and returns the command that loads the children
  when the directory is now expanded and not yet loaded. \<open>runCmd\<close> is that command: it runs
  off the event loop and produces the message that \<open>Update\<close> then consumes.
\<close>

definition toggleExpansion :: "Model \<Rightarrow> string \<Rightarrow> (Model \<times> Cmd option) option" where
  "toggleExpansion m path =
     (case findIdx (\<lambda>it. Path it = path) (items m) of
        None \<Rightarrow> Some (m, None)
      | Some i \<Rightarrow>
          if IsDir (items m ! i) then
            (let it' = (items m ! i)\<lparr>Expanded := \<not> Expanded (items m ! i)\<rparr>;
                 m1 = m\<lparr>items := (items m)[i := it']\<rparr>;
                 load = (Expanded it' \<and> \<not> ChildrenLoaded it');
                 m2 = (if load
                       then m1\<lparr>isLoading := True, loadingMessage := ''Loading directory...''\<rparr>
                       else m1)
             in case refreshVisibleItems m2 of
                  None \<Rightarrow> None
                | Some m3 \<Rightarrow> Some (m3, if load then Some (LoadChildrenCmd path) else None))
          else Some (m, None))"

fun runCmd :: "FileSys \<Rightarrow> Model \<Rightarrow> Cmd \<Rightarrow> Msg" where
  "runCmd fs m (LoadChildrenCmd path) =
     (case LoadDirectoryChildren fs path (gitignoreRegexp m) (showHiddenFiles m) of
        Inl err \<Rightarrow> ErrMsg err
      | Inr children \<Rightarrow> ChildrenLoadedMsg path children)"

text \<open>The two cases of \<open>Update\<close> that belong to lazy loading.\<close>

fun Update :: "Model \<Rightarrow> Msg \<Rightarrow> Model option" where
  "Update m (ErrMsg err) = Some ((addError m err)\<lparr>isLoading := False\<rparr>)"
| "Update m (ChildrenLoadedMsg parentPath children) =
     (let m1 = (case findIdx (\<lambda>it. Path it = parentPath) (items m) of
                  None \<Rightarrow> m
                | Some i \<Rightarrow> m\<lparr>items := (items m)[i := (items m ! i)\<lparr>ChildrenLoaded := True\<rparr>]\<rparr>);
          existingPaths = map Path (items m1);
          newChildren = filter (\<lambda>child. Path child \<notin> set existingPaths) children;
          m2 = (if newChildren \<noteq> [] then m1\<lparr>items := items m1 @ newChildren\<rparr> else m1)
      in refreshVisibleItems (m2\<lparr>isLoading := False\<rparr>))"

text \<open>What a directory listing of the operating system is: the names are distinct
  ordinary path elements.\<close>

definition validEntries :: "DirEntry list \<Rightarrow> bool" where
  "validEntries entries \<longleftrightarrow>
     distinct (map entName entries) \<and> (\<forall>e\<in>set entries. okSeg (entName e))"

text \<open>A file system for the examples: \<open>/proj/src/vendor\<close> holds \<open>lib.go\<close>,
  \<open>/proj/docs\<close> holds \<open>guide.md\<close>, every other directory cannot be read, and no file
  can be read.\<close>

definition exFs :: FileSys where
  "exFs =
     \<lparr>readDir = (\<lambda>p. if p = ''/proj/src/vendor''
                      then Inr [\<lparr>entName = ''lib.go'', entIsDir = False, entInfoOk = True\<rparr>]
                      else if p = ''/proj/docs''
                      then Inr [\<lparr>entName = ''guide.md'', entIsDir = False, entInfoOk = True\<rparr>]
                      else Inl ''permission denied''),
      statSize = (\<lambda>p. None),
      readFile = (\<lambda>p. None)\<rparr>"

text \<open>The child lists a load of the directory \<open>p\<close> delivers: distinct clean absolute
  paths directly below \<open>p\<close>.\<close>

definition childrenOf :: "string \<Rightarrow> FileItem list \<Rightarrow> bool" where
  "childrenOf p cs \<longleftrightarrow>
     distinct (map Path cs) \<and>
     (\<forall>c\<in>set cs. cleanAbs (Path c) \<and> Path c \<noteq> ''/'' \<and> Dir (Path c) = p)"

text \<open>A store with one collapsed directory that the file system \<open>exFs\<close> cannot read, the
  model after the user expands it, and the model after the failed load is delivered.\<close>

definition lockedModel :: Model where
  "lockedModel = mkModel ''/proj'' None [mkItem ''/proj/locked'' ''locked'' True 0]"

definition lockedExpanded :: Model where
  "lockedExpanded = fst (the (toggleExpansion lockedModel ''/proj/locked''))"

definition lockedFailed :: Model where
  "lockedFailed =
     the (Update lockedExpanded (runCmd exFs lockedExpanded (LoadChildrenCmd ''/proj/locked'')))"

text \<open>A store whose ignored directory \<open>/proj/src/vendor\<close> is expanded and not yet loaded,
  the child list its load delivers, and a store whose only entry is the selected, expanded
  and not yet loaded directory \<open>/proj/docs\<close>.\<close>

definition vendorModel :: Model where
  "vendorModel =
     mkModel ''/proj'' (ParseGitignore (Some [''vendor'']))
       [(mkItem ''/proj/src'' ''src'' True 0)\<lparr>Expanded := True, ChildrenLoaded := True\<rparr>,
        mkItem ''/proj/src/main.go'' ''main.go'' False 1,
        (mkItem ''/proj/src/vendor'' ''vendor'' True 1)\<lparr>GitIgnored := True, Expanded := True\<rparr>]"

definition vendorChildren :: "FileItem list" where
  "vendorChildren = [(mkItem ''/proj/src/vendor/lib.go'' ''lib.go'' False 1)\<lparr>GitIgnored := True\<rparr>]"

definition docsModel :: Model where
  "docsModel =
     mkModel ''/proj'' None
       [(mkItem ''/proj/docs'' ''docs'' True 0)\<lparr>Selected := True, Expanded := True\<rparr>]"

section \<open>The search engine: \<open>executeCustomSearch\<close>\<close>

text \<open>
  \<open>addParentDirs\<close> first recurses on the parent directory and then appends the parent's
  entry to the results unless its path is already among the result paths. The map
  \<open>resultPaths\<close> of the source is the list of its keys. The recursion stops at the root
  path or at \<open>.\<close>; it need not return.
\<close>

partial_function (option) addParentDirs ::
  "string \<Rightarrow> string \<Rightarrow> FileItem list \<Rightarrow> FileItem list \<times> string list \<Rightarrow>
   (FileItem list \<times> string list) option" where
  "addParentDirs path rootPath allItems st =
     (let parentPath = Dir path in
      if parentPath = rootPath \<or> parentPath = ''.'' then Some st
      else
        Option.bind (addParentDirs parentPath rootPath allItems st) (\<lambda>st1.
          if parentPath \<notin> set (snd st1) then
            (case find (\<lambda>item. Path item = parentPath \<and> IsDir item) allItems of
               None \<Rightarrow> Some st1
             | Some item \<Rightarrow> Some (fst st1 @ [item], parentPath # snd st1))
          else Some st1))"

declare addParentDirs.simps [code]

text \<open>The three loops of \<open>executeCustomSearch\<close>: over the exact matches, over the
  files whose name contains the query, and over the files whose content contains it. The
  state is the result list, the result paths and, in the last two, the match count.\<close>

fun exactLoop ::
  "Model \<Rightarrow> FileItem list \<Rightarrow> FileItem list \<times> string list \<Rightarrow>
   (FileItem list \<times> string list) option" where
  "exactLoop m [] st = Some st"
| "exactLoop m (item # rest) st =
     (if Path item \<in> set (snd st) then exactLoop m rest st
      else
        (case addParentDirs (Path item) (cwd m) (items m) (fst st @ [item], Path item # snd st) of
           None \<Rightarrow> None
         | Some st' \<Rightarrow> exactLoop m rest st'))"

fun partialLoop ::
  "Model \<Rightarrow> string \<Rightarrow> FileItem list \<Rightarrow> (FileItem list \<times> string list) \<times> nat \<Rightarrow>
   ((FileItem list \<times> string list) \<times> nat) option" where
  "partialLoop m queryLower [] acc = Some acc"
| "partialLoop m queryLower (it # rest) acc =
     (if \<not> IsDir it \<and> Contains (ToLower (Name it)) queryLower \<and> Path it \<notin> set (snd (fst acc)) then
        (case addParentDirs (Path it) (cwd m) (items m)
                (fst (fst acc) @ [it], Path it # snd (fst acc)) of
           None \<Rightarrow> None
         | Some st' \<Rightarrow> partialLoop m queryLower rest (st', Suc (snd acc)))
      else partialLoop m queryLower rest acc)"

text \<open>A file is read only when \<open>os.Stat\<close> succeeds and reports a size below
  \<open>1024*1024\<close>; \<open>contentMatches\<close> is the test of both content passes.\<close>

definition contentMatches :: "FileSys \<Rightarrow> string \<Rightarrow> string \<Rightarrow> bool" where
  "contentMatches fs path queryLower =
     (case statSize fs path of
        None \<Rightarrow> False
      | Some sz \<Rightarrow>
          if sz < 1024 * 1024 then
            (case readFile fs path of
               None \<Rightarrow> False
             | Some content \<Rightarrow> Contains (ToLower content) queryLower)
          else False)"

fun contentLoop ::
  "FileSys \<Rightarrow> Model \<Rightarrow> string \<Rightarrow> FileItem list \<Rightarrow> (FileItem list \<times> string list) \<times> nat \<Rightarrow>
   ((FileItem list \<times> string list) \<times> nat) option" where
  "contentLoop fs m queryLower [] acc = Some acc"
| "contentLoop fs m queryLower (it # rest) acc =
     (if \<not> IsDir it \<and> Path it \<notin> set (snd (fst acc)) \<and> contentMatches fs (Path it) queryLower then
        (let fileItem = it\<lparr>MatchesContent := True\<rparr> in
         case addParentDirs (Path fileItem) (cwd m) (items m)
                (fst (fst acc) @ [fileItem], Path fileItem # snd (fst acc)) of
           None \<Rightarrow> None
         | Some st' \<Rightarrow> contentLoop fs m queryLower rest (st', Suc (snd acc)))
      else contentLoop fs m queryLower rest acc)"

text \<open>
  \<open>executeCustomSearch\<close>. \<open>sort.Slice\<close> orders the results by path; it is not stable, and
  \<open>sort_key Path\<close> is its result whenever the paths of the results are distinct.
\<close>

definition executeCustomSearch :: "FileSys \<Rightarrow> Model \<Rightarrow> string \<Rightarrow> Model option" where
  "executeCustomSearch fs m query =
     (if query = [] then refreshVisibleItems (m\<lparr>isInSearchResults := False\<rparr>)
      else
        (let queryLower = ToLower query;
             m1 = m\<lparr>isInSearchResults := True,
                    items := map (\<lambda>it. it\<lparr>MatchesContent := False\<rparr>) (items m)\<rparr>;
             exactMatches = filter (\<lambda>it. \<not> IsDir it \<and> ToLower (Name it) = queryLower) (items m1)
         in
         if exactMatches \<noteq> [] then
           (case exactLoop m1 exactMatches ([], []) of
              None \<Rightarrow> None
            | Some st \<Rightarrow> Some (m1\<lparr>listItems := sort_key Path (fst st)\<rparr>))
         else
           (case partialLoop m1 queryLower (items m1) (([], []), 0) of
              None \<Rightarrow> None
            | Some acc1 \<Rightarrow>
                (case (if snd acc1 = 0 \<and> contentSearchMode m1
                       then contentLoop fs m1 queryLower (items m1) acc1
                       else Some acc1) of
                   None \<Rightarrow> None
                 | Some acc2 \<Rightarrow>
                     (let results = sort_key Path (fst (fst acc2)) in
                      if results \<noteq> [] then Some (m1\<lparr>listItems := results\<rparr>)
                      else refreshVisibleItems (m1\<lparr>isInSearchResults := False\<rparr>))))))"

text \<open>
  The invariant of the result list and the result paths while the search loops run: the
  result paths are the paths of the results, the results are entries of the store with
  distinct paths, and with an entry the results hold every directory of the store above it.
\<close>

definition resInv :: "FileItem list \<Rightarrow> FileItem list \<times> string list \<Rightarrow> bool" where
  "resInv its st \<longleftrightarrow>
     set (snd st) = Path ` set (fst st) \<and> set (fst st) \<subseteq> set its \<and>
     distinct (map Path (fst st)) \<and>
     (\<forall>e\<in>set its. Path e \<in> Path ` set (fst st) \<longrightarrow>
        (\<forall>d\<in>set its. IsDir d \<and> prefix (Path d @ ''/'') (Path e) \<longrightarrow>
           Path d \<in> Path ` set (fst st)))"

text \<open>A store in which a directory and a file share the beginning of their names, and a
  store with the files \<open>main.go\<close> and \<open>main.go.bak\<close> below \<open>/proj/cmd\<close>.\<close>

definition docsTxtModel :: Model where
  "docsTxtModel =
     mkModel ''/proj'' None
       [mkItem ''/proj/docs'' ''docs'' True 0, mkItem ''/proj/docs.txt'' ''docs.txt'' False 0]"

definition mainGoModel :: Model where
  "mainGoModel =
     mkModel ''/proj'' None
       [mkItem ''/proj/cmd'' ''cmd'' True 0,
        mkItem ''/proj/cmd/main.go'' ''main.go'' False 1,
        mkItem ''/proj/cmd/main.go.bak'' ''main.go.bak'' False 1,
        mkItem ''/proj/Main.go'' ''Main.go'' False 0]"

section \<open>Facts about paths\<close>

lemma splitSep_ne [simp]: "splitSep s \<noteq> []"
  by (induction s) (auto split: list.splits)

lemma splitSep_Cons_noslash:
  "c \<noteq> CHR ''/'' \<Longrightarrow> splitSep (c # cs) = (c # hd (splitSep cs)) # tl (splitSep cs)"
  by (cases "splitSep cs") auto

lemma splitSep_noslash:
  "CHR ''/'' \<notin> set x \<Longrightarrow> splitSep (x @ s) = (x @ hd (splitSep s)) # tl (splitSep s)"
proof (induction x)
  case Nil
  then show ?case by simp
next
  case (Cons c x)
  then have "c \<noteq> CHR ''/''" by auto
  from splitSep_Cons_noslash [OF this, of "x @ s"] Cons show ?case by simp
qed

lemma splitSep_noslash_only: "CHR ''/'' \<notin> set x \<Longrightarrow> splitSep x = [x]"
  using splitSep_noslash [of x "[]"] by simp

lemma splitSep_slash: "splitSep (CHR ''/'' # s) = [] # splitSep s"
  by simp

lemma splitSep_join:
  "xs \<noteq> [] \<Longrightarrow> \<forall>x\<in>set xs. CHR ''/'' \<notin> set x \<Longrightarrow> splitSep (joinSep xs) = xs"
proof (induction xs rule: joinSep.induct)
  case 1
  then show ?case by simp
next
  case (2 x)
  then show ?case by (simp add: splitSep_noslash_only)
next
  case (3 x y ys)
  then show ?case by (simp add: splitSep_noslash splitSep_slash del: splitSep.simps)
qed

lemma set_splitSep: "x \<in> set (splitSep s) \<Longrightarrow> CHR ''/'' \<notin> set x"
proof (induction s arbitrary: x)
  case Nil
  then show ?case by simp
next
  case (Cons c cs)
  obtain h t where ht: "splitSep cs = h # t" by (cases "splitSep cs") auto
  show ?case
  proof (cases "c = CHR ''/''")
    case True
    with Cons show ?thesis by auto
  next
    case False
    with Cons ht show ?thesis by auto
  qed
qed

lemma joinSep_snoc:
  "xs \<noteq> [] \<Longrightarrow> joinSep (xs @ [x]) = joinSep xs @ CHR ''/'' # x"
  by (induction xs rule: joinSep.induct) auto

lemma joinSep_Cons:
  "xs \<noteq> [] \<Longrightarrow> joinSep (x # xs) = x @ CHR ''/'' # joinSep xs"
  by (cases xs) auto

lemma cleanElems_ok:
  "\<forall>e\<in>set es. okSeg e \<or> e = [] \<Longrightarrow>
   cleanElems r out es = rev out @ filter (\<lambda>e. e \<noteq> []) es"
  by (induction es arbitrary: out) (auto simp: okSeg_def)

lemma cleanElems_rooted_okSeg:
  "\<forall>e\<in>set es. CHR ''/'' \<notin> set e \<Longrightarrow> \<forall>x\<in>set out. okSeg x \<Longrightarrow>
   x \<in> set (cleanElems True out es) \<Longrightarrow> okSeg x"
proof (induction es arbitrary: out)
  case Nil
  then show ?case by simp
next
  case (Cons e es)
  note IH = Cons.IH and prems = Cons.prems
  from prems(1) have es: "\<forall>e\<in>set es. CHR ''/'' \<notin> set e" by simp
  show ?case
  proof (cases "e = [] \<or> e = ''.''")
    case True
    with prems(3) have "x \<in> set (cleanElems True out es)" by auto
    with IH [OF es prems(2)] show ?thesis .
  next
    case False
    note ne = False
    show ?thesis
    proof (cases "e = ''..''")
      case True
      note dd = True
      show ?thesis
      proof (cases out)
        case Nil
        with dd prems(3) have "x \<in> set (cleanElems True [] es)" by simp
        with IH [OF es, of "[]"] show ?thesis by simp
      next
        case (Cons t ts)
        with prems(2) have "t \<noteq> ''..''" and ts: "\<forall>x\<in>set ts. okSeg x"
          by (auto simp: okSeg_def)
        with dd Cons prems(3) have "x \<in> set (cleanElems True ts es)" by simp
        with IH [OF es ts] show ?thesis .
      qed
    next
      case False
      with ne prems(1) have "okSeg e" by (auto simp: okSeg_def)
      with prems(2) have o: "\<forall>x\<in>set (e # out). okSeg x" by simp
      from ne False prems(3) have "x \<in> set (cleanElems True (e # out) es)" by simp
      with IH [OF es o] show ?thesis .
    qed
  qed
qed

lemma okSeg_noslash: "okSeg x \<Longrightarrow> CHR ''/'' \<notin> set x"
  by (simp add: okSeg_def)

lemma filter_ne_ok: "\<forall>x\<in>set xs. okSeg x \<Longrightarrow> filter (\<lambda>e. e \<noteq> []) xs = xs"
  by (induction xs) (auto simp: okSeg_def)

lemma Clean_abspath:
  assumes "\<forall>x\<in>set xs. okSeg x"
  shows "Clean (abspath xs) = abspath xs"
proof (cases "xs = []")
  case True
  then show ?thesis by (simp add: Clean_def abspath_def)
next
  case False
  with assms have "splitSep (joinSep xs) = xs"
    by (intro splitSep_join) (auto simp: okSeg_def)
  moreover have "cleanElems True [] ([] # xs) = xs"
    using assms by (subst cleanElems_ok) (auto simp: filter_ne_ok)
  ultimately show ?thesis by (simp add: Clean_def abspath_def)
qed

lemma Clean_abspath_slash:
  assumes "\<forall>x\<in>set xs. okSeg x" and "xs \<noteq> []"
  shows "Clean (abspath xs @ ''/'') = abspath xs"
proof -
  have ns: "\<forall>x\<in>set (xs @ [[]]). CHR ''/'' \<notin> set x"
    using assms by (auto simp: okSeg_def)
  have "joinSep xs @ ''/'' = joinSep (xs @ [[]])"
    using assms(2) by (simp add: joinSep_snoc)
  then have "splitSep (joinSep xs @ ''/'') = xs @ [[]]"
    using splitSep_join [of "xs @ [[]]"] ns by simp
  moreover have "cleanElems True [] ([] # xs @ [[]]) = xs"
    using assms by (subst cleanElems_ok) (auto simp: filter_ne_ok)
  ultimately show ?thesis by (simp add: Clean_def abspath_def)
qed

lemma cleanAbs_abspath: "\<forall>x\<in>set xs. okSeg x \<Longrightarrow> cleanAbs (abspath xs)"
  by (simp add: cleanAbs_def Clean_abspath) (simp add: abspath_def)

lemma cleanAbs_segs:
  assumes "cleanAbs p"
  obtains xs where "p = abspath xs" and "\<forall>x\<in>set xs. okSeg x"
proof -
  let ?xs = "cleanElems True [] (splitSep p)"
  from assms have "p = abspath ?xs"
    by (auto simp: cleanAbs_def Clean_def abspath_def split: if_splits)
  moreover have "\<forall>x\<in>set ?xs. okSeg x"
    using cleanElems_rooted_okSeg [of "splitSep p" "[]"] set_splitSep by auto
  ultimately show thesis using that by blast
qed

lemma abspath_eq_root: "\<forall>x\<in>set xs. okSeg x \<Longrightarrow> abspath xs = ''/'' \<longleftrightarrow> xs = []"
  by (cases xs rule: joinSep.cases) (auto simp: abspath_def okSeg_def)

lemma abspath_snoc:
  assumes "\<forall>x\<in>set xs. okSeg x"
  shows "abspath (xs @ [x]) = rootSlash (abspath xs) @ x"
proof (cases "xs = []")
  case True
  then show ?thesis by (simp add: abspath_def rootSlash_def)
next
  case False
  with assms have "abspath xs \<noteq> ''/''" by (simp add: abspath_eq_root)
  with False show ?thesis by (simp add: abspath_def rootSlash_def joinSep_snoc)
qed

lemma dropLast_noslash:
  "CHR ''/'' \<notin> set x \<Longrightarrow>
   rev (dropWhile (\<lambda>c. c \<noteq> CHR ''/'') (rev (s @ CHR ''/'' # x))) = s @ ''/''"
proof -
  assume a: "CHR ''/'' \<notin> set x"
  have "dropWhile (\<lambda>c. c \<noteq> CHR ''/'') (rev x @ CHR ''/'' # rev s) = CHR ''/'' # rev s"
    using a by (subst dropWhile_append2) auto
  then show ?thesis by simp
qed

lemma Dir_abspath_snoc:
  assumes "\<forall>y\<in>set xs. okSeg y" and "okSeg x"
  shows "Dir (abspath (xs @ [x])) = abspath xs"
proof (cases "xs = []")
  case True
  from assms(2) have "CHR ''/'' \<notin> set x" by (simp add: okSeg_def)
  from dropLast_noslash [OF this, of "[]"] True show ?thesis
    by (simp add: Dir_def abspath_def Clean_def)
next
  case False
  from assms(2) have ns: "CHR ''/'' \<notin> set x" by (simp add: okSeg_def)
  have "abspath (xs @ [x]) = abspath xs @ CHR ''/'' # x"
    using False by (simp add: abspath_def joinSep_snoc)
  then have "Dir (abspath (xs @ [x])) = Clean (abspath xs @ ''/'')"
    using dropLast_noslash [OF ns, of "abspath xs"] by (simp add: Dir_def)
  then show ?thesis using Clean_abspath_slash [OF assms(1) False] by simp
qed

text \<open>The bridge used everywhere else: a clean absolute path other than the root is its
  directory, a separator and one last element.\<close>

lemma cleanAbs_Dir:
  assumes "cleanAbs p" and "p \<noteq> ''/''"
  shows "cleanAbs (Dir p) \<and> (\<exists>x. okSeg x \<and> p = rootSlash (Dir p) @ x)"
proof -
  from assms(1) obtain xs where p: "p = abspath xs" and ok: "\<forall>x\<in>set xs. okSeg x"
    by (rule cleanAbs_segs)
  from assms(2) p have "xs \<noteq> []" by (auto simp: abspath_def)
  then obtain ys y where xs: "xs = ys @ [y]" by (cases xs rule: rev_cases) auto
  from ok xs have oky: "okSeg y" and okys: "\<forall>x\<in>set ys. okSeg x" by auto
  have d: "Dir p = abspath ys" using p xs Dir_abspath_snoc [OF okys oky] by simp
  have "p = rootSlash (Dir p) @ y" using p xs d abspath_snoc [OF okys] by simp
  with d oky okys show ?thesis using cleanAbs_abspath by auto
qed


lemma cleanAbs_ne: "cleanAbs p \<Longrightarrow> p \<noteq> []"
  by (simp add: cleanAbs_def)

lemma length_Dir: "cleanAbs p \<Longrightarrow> p \<noteq> ''/'' \<Longrightarrow> length (Dir p) < length p"
proof -
  assume a: "cleanAbs p" "p \<noteq> ''/''"
  from cleanAbs_Dir [OF a] obtain x where x: "okSeg x" "p = rootSlash (Dir p) @ x" by blast
  from x(1) have "x \<noteq> []" by (simp add: okSeg_def)
  then have "length (Dir p) < length (rootSlash (Dir p) @ x)"
    by (cases x) (auto simp: rootSlash_def)
  with x(2) show ?thesis by simp
qed

lemma Dir_slash_prefix:
  assumes "cleanAbs p" "p \<noteq> ''/''" "Dir p \<noteq> ''/''"
  shows "prefix (Dir p @ ''/'') p"
proof -
  from cleanAbs_Dir [OF assms(1,2)] obtain x where "p = rootSlash (Dir p) @ x" by blast
  with assms(3) have "p = (Dir p @ ''/'') @ x" by (simp add: rootSlash_def)
  then show ?thesis by (metis prefixI)
qed

lemma Dir_prefix:
  assumes "cleanAbs p" "p \<noteq> ''/''"
  shows "prefix (Dir p) p"
proof -
  from cleanAbs_Dir [OF assms] obtain x where x: "p = rootSlash (Dir p) @ x" by blast
  have "prefix (Dir p) (rootSlash (Dir p) @ x)"
    by (auto simp: rootSlash_def prefix_def)
  with x show ?thesis by simp
qed

lemma anc_irrefl: "\<not> prefix (a @ ''/'') a"
  by (auto dest: prefix_length_le)

lemma anc_antisym: "prefix (a @ ''/'') b \<Longrightarrow> \<not> prefix (b @ ''/'') a"
  by (auto dest!: prefix_length_le)

lemma anc_trans: "prefix (a @ ''/'') b \<Longrightarrow> prefix (b @ ''/'') c \<Longrightarrow> prefix (a @ ''/'') c"
  by (auto simp: prefix_def)


lemma anc_Dir_cases:
  assumes "cleanAbs p" "p \<noteq> ''/''" "a \<noteq> []" "prefix (a @ ''/'') p"
  shows "a = Dir p \<or> prefix (a @ ''/'') (Dir p)"
proof -
  from cleanAbs_Dir [OF assms(1,2)] obtain x
    where x: "okSeg x" "p = rootSlash (Dir p) @ x" by blast
  from x(1) have ns: "CHR ''/'' \<notin> set x" by (simp add: okSeg_def)
  from assms(3) obtain c a' where a: "a = c # a'" by (cases a) auto
  show ?thesis
  proof (cases "Dir p = ''/''")
    case True
    with x(2) have p: "p = CHR ''/'' # x" by (simp add: rootSlash_def)
    from assms(4) have "set (a @ ''/'') \<subseteq> set p" by (auto simp: prefix_def)
    with a p assms(4) have "CHR ''/'' \<in> set x" by (auto simp: prefix_def Cons_eq_append_conv)
    with ns show ?thesis by simp
  next
    case False
    with x(2) have p: "p = (Dir p @ ''/'') @ x" by (simp add: rootSlash_def)
    from assms(4) p have "prefix (a @ ''/'') ((Dir p @ ''/'') @ x)" by simp
    then have "prefix (a @ ''/'') (Dir p @ ''/'') \<or>
      (\<exists>us. a @ ''/'' = (Dir p @ ''/'') @ us \<and> prefix us x)"
      unfolding prefix_append by blast
    then show ?thesis
    proof
      assume "prefix (a @ ''/'') (Dir p @ ''/'')"
      then show ?thesis by (auto simp: prefix_snoc)
    next
      assume "\<exists>us. a @ ''/'' = (Dir p @ ''/'') @ us \<and> prefix us x"
      then obtain us where us: "a @ ''/'' = (Dir p @ ''/'') @ us" "prefix us x" by blast
      show ?thesis
      proof (cases "us = []")
        case True
        with us(1) show ?thesis by simp
      next
        case False
        then have "last us = last (a @ ''/'')" using us(1) by (metis last_appendR)
        then have "CHR ''/'' \<in> set us" using False by (metis last_in_set last_snoc)
        with us(2) ns show ?thesis by (auto simp: prefix_def)
      qed
    qed
  qed
qed

subsection \<open>The ignore predicate is closed under extension\<close>

lemma matchHere_append: "matchHere ts s \<Longrightarrow> matchHere ts (s @ u)"
proof (induction ts s rule: matchHere.induct)
  case (4 ts)
  then show ?case
  proof (induction u)
    case Nil
    then show ?case by simp
  next
    case (Cons d u)
    then show ?case by simp
  qed
qed auto

lemma MatchString_append: "MatchString re s \<Longrightarrow> MatchString re (s @ u)"
proof -
  assume "MatchString re s"
  then obtain t p where t: "suffix t s" "p \<in> set re" "matchHere p t"
    by (auto simp: MatchString_def in_set_suffixes)
  from t(1) have "suffix (t @ u) (s @ u)" by (auto simp: suffix_def)
  with t(2) matchHere_append [OF t(3), of u] show ?thesis
    by (auto simp: MatchString_def in_set_suffixes)
qed

lemma isGitIgnored_prefix: "prefix a b \<Longrightarrow> isGitIgnored m a \<Longrightarrow> isGitIgnored m b"
  by (auto simp: isGitIgnored_def prefix_def MatchString_append split: option.splits)

subsection \<open>First index\<close>

lemma findIdx_Some:
  "findIdx P xs = Some i \<Longrightarrow> i < length xs \<and> P (xs ! i) \<and> (\<forall>j<i. \<not> P (xs ! j))"
proof (induction xs arbitrary: i)
  case Nil
  then show ?case by simp
next
  case (Cons x xs)
  show ?case
  proof (cases "P x")
    case True
    with Cons.prems show ?thesis by simp
  next
    case False
    with Cons.prems obtain k where k: "findIdx P xs = Some k" "i = Suc k" by auto
    from Cons.IH [OF k(1)] False k(2) show ?thesis by (auto simp: less_Suc_eq_0_disj)
  qed
qed

lemma findIdx_None: "findIdx P xs = None \<longleftrightarrow> (\<forall>x\<in>set xs. \<not> P x)"
  by (induction xs) auto

lemma findIdx_ex: "x \<in> set xs \<Longrightarrow> P x \<Longrightarrow> \<exists>i. findIdx P xs = Some i"
  using findIdx_None [of P xs] by (cases "findIdx P xs") auto

lemma find_ex: "x \<in> set xs \<Longrightarrow> P x \<Longrightarrow> \<exists>y. find P xs = Some y \<and> y \<in> set xs \<and> P y"
  by (induction xs) auto

lemma find_distinct_Path:
  "distinct (map Path xs) \<Longrightarrow> x \<in> set xs \<Longrightarrow> find (\<lambda>it. Path it = Path x) xs = Some x"
  by (induction xs) (auto simp: image_iff)

lemma find_distinct_Path_dir:
  "distinct (map Path xs) \<Longrightarrow> x \<in> set xs \<Longrightarrow> IsDir x \<Longrightarrow>
   find (\<lambda>it. Path it = Path x \<and> IsDir it) xs = Some x"
  by (induction xs) (auto simp: image_iff)

section \<open>Facts about well-formed stores\<close>

lemma isGitIgnored_items [simp]: "isGitIgnored (m\<lparr>items := its\<rparr>) = isGitIgnored m"
  by (rule ext) (simp add: isGitIgnored_def)

lemma wfStore_D:
  assumes "wfStore root its" "e \<in> set its"
  shows "cleanAbs (Path e)" "Path e \<noteq> ''/''" "Path e \<noteq> []"
    "Dir (Path e) = root \<or> (\<exists>d\<in>set its. IsDir d \<and> Path d = Dir (Path e))"
  using assms by (auto simp: wfStore_def cleanAbs_def)

lemma wfStore_distinct: "wfStore root its \<Longrightarrow> distinct (map Path its)"
  by (simp add: wfStore_def)

lemma wfStore_eq: "wfStore root its \<Longrightarrow> a \<in> set its \<Longrightarrow> b \<in> set its \<Longrightarrow>
  Path a = Path b \<Longrightarrow> a = b"
  by (auto simp: wfStore_def dest: inj_on_eq_iff [OF iffD1 [OF distinct_map, THEN conjunct2]])

lemma map_Path_map: "\<forall>e\<in>set its. Path (k e) = Path e \<Longrightarrow> map Path (map k its) = map Path its"
  by (induction its) auto

lemma wfStore_map:
  assumes wf: "wfStore root its" and k: "\<forall>e\<in>set its. Path (k e) = Path e \<and> IsDir (k e) = IsDir e"
  shows "wfStore root (map k its)"
proof -
  have mp: "map Path (map k its) = map Path its" using k by (intro map_Path_map) simp
  have "\<forall>it\<in>set (map k its). cleanAbs (Path it) \<and> Path it \<noteq> ''/'' \<and>
        (Dir (Path it) = root \<or> (\<exists>d\<in>set (map k its). IsDir d \<and> Path d = Dir (Path it)))"
  proof
    fix it assume "it \<in> set (map k its)"
    then obtain e where e: "e \<in> set its" "it = k e" by auto
    from k e have pe: "Path it = Path e" by simp
    from wfStore_D [OF wf e(1)] have c: "cleanAbs (Path e)" "Path e \<noteq> ''/''"
      and pc: "Dir (Path e) = root \<or> (\<exists>d\<in>set its. IsDir d \<and> Path d = Dir (Path e))" by auto
    from pc have "Dir (Path e) = root \<or> (\<exists>d\<in>set (map k its). IsDir d \<and> Path d = Dir (Path e))"
    proof
      assume "Dir (Path e) = root" then show ?thesis by simp
    next
      assume "\<exists>d\<in>set its. IsDir d \<and> Path d = Dir (Path e)"
      then obtain d where d: "d \<in> set its" "IsDir d" "Path d = Dir (Path e)" by blast
      with k have "k d \<in> set (map k its)" "IsDir (k d)" "Path (k d) = Dir (Path e)" by auto
      then show ?thesis by blast
    qed
    with c pe show "cleanAbs (Path it) \<and> Path it \<noteq> ''/'' \<and>
        (Dir (Path it) = root \<or> (\<exists>d\<in>set (map k its). IsDir d \<and> Path d = Dir (Path it)))"
      by simp
  qed
  moreover have "distinct (map Path (map k its))"
    unfolding mp using wf by (simp add: wfStore_def)
  ultimately show ?thesis unfolding wfStore_def by blast
qed

lemma wf_under:
  "wfStore root its \<Longrightarrow> e \<in> set its \<Longrightarrow> prefix (rootSlash root) (Path e) \<and> Path e \<noteq> root"
proof (induction "Path e" arbitrary: e rule: measure_induct_rule [where f = length])
  case less
  note wf = less.prems(1) and e = less.prems(2)
  from wfStore_D [OF wf e] have c: "cleanAbs (Path e)" and nr: "Path e \<noteq> ''/''"
    and pc: "Dir (Path e) = root \<or> (\<exists>d\<in>set its. IsDir d \<and> Path d = Dir (Path e))" by auto
  from cleanAbs_Dir [OF c nr] obtain x where x: "okSeg x" "Path e = rootSlash (Dir (Path e)) @ x"
    by blast
  from x(1) have xne: "x \<noteq> []" by (simp add: okSeg_def)
  from pc show ?case
  proof
    assume r: "Dir (Path e) = root"
    with x(2) have "Path e = rootSlash root @ x" by simp
    with xne show ?thesis by (auto simp: rootSlash_def split: if_splits)
  next
    assume "\<exists>d\<in>set its. IsDir d \<and> Path d = Dir (Path e)"
    then obtain d where d: "d \<in> set its" "Path d = Dir (Path e)" by blast
    from length_Dir [OF c nr] d(2) have lt: "length (Path d) < length (Path e)" by simp
    from less.hyps [OF lt wf d(1)] have u: "prefix (rootSlash root) (Path d)" by simp
    from Dir_prefix [OF c nr] d(2) have "prefix (Path d) (Path e)" by simp
    with u have u': "prefix (rootSlash root) (Path e)" by (rule prefix_order.order_trans)
    have "length root \<le> length (rootSlash root)" by (simp add: rootSlash_def)
    also have "\<dots> \<le> length (Path d)" using u by (rule prefix_length_le)
    finally have "Path e \<noteq> root" using lt by auto
    with u' show ?thesis by simp
  qed
qed

lemma wf_no_anc_of_root:
  assumes "wfStore root its" "e \<in> set its"
  shows "\<not> prefix (Path e @ ''/'') root" "Path e @ ''/'' \<noteq> rootSlash root"
proof -
  from wf_under [OF assms] have u: "prefix (rootSlash root) (Path e)" and ne: "Path e \<noteq> root"
    by auto
  from wfStore_D [OF assms] have pe: "Path e \<noteq> []" by simp
  show "\<not> prefix (Path e @ ''/'') root"
  proof
    assume a: "prefix (Path e @ ''/'') root"
    then have "length (Path e) < length root" by (auto dest: prefix_length_le)
    moreover from u have "length (rootSlash root) \<le> length (Path e)" by (rule prefix_length_le)
    moreover have "length root \<le> length (rootSlash root)" by (simp add: rootSlash_def)
    ultimately show False by simp
  qed
  show "Path e @ ''/'' \<noteq> rootSlash root"
  proof
    assume a: "Path e @ ''/'' = rootSlash root"
    with pe ne show False by (auto simp: rootSlash_def split: if_splits)
  qed
qed

lemma wf_top_no_anc:
  assumes wf: "wfStore root its" and e: "e \<in> set its" and c: "cleanAbs c" "c \<noteq> ''/''"
    and top: "Dir c = root"
  shows "\<not> prefix (Path e @ ''/'') c"
proof
  assume a: "prefix (Path e @ ''/'') c"
  from wfStore_D [OF wf e] have pe: "Path e \<noteq> []" by simp
  from anc_Dir_cases [OF c pe a] top have "Path e = root \<or> prefix (Path e @ ''/'') root" by simp
  with wf_under [OF wf e] wf_no_anc_of_root [OF wf e] show False by auto
qed

lemma wf_parent_idx:
  assumes wf: "wfStore root its" and e: "c \<in> Path ` set its" and nt: "Dir c \<noteq> root"
  obtains i where "findIdx (\<lambda>it. Path it = Dir c \<and> IsDir it) its = Some i" "i < length its"
    "Path (its ! i) = Dir c" "IsDir (its ! i)" "its ! i \<in> set its"
proof -
  from e obtain x where x: "x \<in> set its" "Path x = c" by auto
  from wfStore_D(4) [OF wf x(1)] nt x(2) obtain d where d: "d \<in> set its" "IsDir d" "Path d = Dir c"
    by auto
  from findIdx_ex [of d its "\<lambda>it. Path it = Dir c \<and> IsDir it"] d
  obtain i where i: "findIdx (\<lambda>it. Path it = Dir c \<and> IsDir it) its = Some i" by auto
  from findIdx_Some [OF i] show thesis using that i by auto
qed

lemma list_update_Path_map:
  assumes "distinct (map Path its)" "i < length its"
  shows "its[i := f (its ! i)] = map (\<lambda>e. if Path e = Path (its ! i) then f e else e) its"
proof (rule nth_equalityI)
  show "length (its[i := f (its ! i)]) = length (map (\<lambda>e. if Path e = Path (its ! i) then f e else e) its)"
    by simp
next
  fix j assume "j < length (its[i := f (its ! i)])"
  then have j: "j < length its" by simp
  show "its[i := f (its ! i)] ! j = map (\<lambda>e. if Path e = Path (its ! i) then f e else e) its ! j"
  proof (cases "j = i")
    case True
    with j show ?thesis by simp
  next
    case False
    with assms j have "Path (its ! j) \<noteq> Path (its ! i)"
      by (metis distinct_conv_nth length_map nth_map)
    with False j show ?thesis by simp
  qed
qed

lemma areAll_char:
  assumes "distinct (map Path (items m))"
  shows "areAllDescendantsSelected m p \<longleftrightarrow>
    (\<exists>e\<in>set (items m). prefix (p @ ''/'') (Path e)) \<and>
    (\<forall>e\<in>set (items m). prefix (p @ ''/'') (Path e) \<longrightarrow> isGitIgnored m (Path e) \<or> Selected e)"
proof -
  have f: "\<And>e. e \<in> set (items m) \<Longrightarrow> find (\<lambda>it. Path it = Path e) (items m) = Some e"
    using assms by (rule find_distinct_Path)
  have ne: "getAllDescendants m p = [] \<longleftrightarrow> \<not> (\<exists>e\<in>set (items m). prefix (p @ ''/'') (Path e))"
    by (auto simp: getAllDescendants_def filter_empty_conv)
  show ?thesis
    unfolding areAllDescendantsSelected_def Let_def ne
    by (auto simp: list_all_iff getAllDescendants_def f)
qed

lemma areAll_map_cong:
  assumes d: "distinct (map Path (items m))"
    and k: "\<forall>e\<in>set (items m). Path (k e) = Path e \<and>
             (prefix (p @ ''/'') (Path e) \<longrightarrow> Selected (k e) = Selected e)"
  shows "areAllDescendantsSelected (m\<lparr>items := map k (items m)\<rparr>) p =
         areAllDescendantsSelected m p"
proof -
  have mp: "map Path (map k (items m)) = map Path (items m)" using k by (intro map_Path_map) simp
  have "distinct (map Path (map k (items m)))" unfolding mp by (rule d)
  then have d': "distinct (map Path (items (m\<lparr>items := map k (items m)\<rparr>)))"
    by (simp del: map_map)
  have a: "(\<exists>e\<in>set (map k (items m)). prefix (p @ ''/'') (Path e)) \<longleftrightarrow>
           (\<exists>e\<in>set (items m). prefix (p @ ''/'') (Path e))"
    using k by auto
  have b: "(\<forall>e\<in>set (map k (items m)). prefix (p @ ''/'') (Path e) \<longrightarrow>
              isGitIgnored m (Path e) \<or> Selected e) \<longleftrightarrow>
           (\<forall>e\<in>set (items m). prefix (p @ ''/'') (Path e) \<longrightarrow>
              isGitIgnored m (Path e) \<or> Selected e)"
    using k by auto
  show ?thesis
    unfolding areAll_char [OF d] areAll_char [OF d'] using a b by simp
qed

section \<open>The ancestor recomputation\<close>

lemma areAll_listItems [simp]:
  "areAllDescendantsSelected (m\<lparr>listItems := x\<rparr>) = areAllDescendantsSelected m"
  by (rule ext) (simp add: areAllDescendantsSelected_def getAllDescendants_def isGitIgnored_def)

lemma isGitIgnored_listItems [simp]: "isGitIgnored (m\<lparr>listItems := x\<rparr>) = isGitIgnored m"
  by (rule ext) (simp add: isGitIgnored_def)

lemma upd_spec:
  "wfStore (cwd m) (items m) \<Longrightarrow> c \<in> Path ` set (items m) \<Longrightarrow>
   \<exists>m'. updateParentSelectionState m c = Some m' \<and> m' = m\<lparr>items := items m'\<rparr> \<and>
        items m' = map (\<lambda>e. if prefix (Path e @ ''/'') c
                             then e\<lparr>Selected := areAllDescendantsSelected m' (Path e)\<rparr>
                             else e) (items m)"
proof (induction c arbitrary: m rule: measure_induct_rule [where f = length])
  case (less c m)
  note wf = less.prems(1) and cin = less.prems(2)
  from cin obtain x where x: "x \<in> set (items m)" "Path x = c" by auto
  from wfStore_D [OF wf x(1)] x(2) have cc: "cleanAbs c" "c \<noteq> ''/''" by auto
  show ?case
  proof (cases "Dir c = cwd m")
    case True
    have "updateParentSelectionState m c = Some m"
      by (subst updateParentSelectionState.simps) (simp add: True)
    moreover have "items m = map (\<lambda>e. if prefix (Path e @ ''/'') c
                             then e\<lparr>Selected := areAllDescendantsSelected m (Path e)\<rparr>
                             else e) (items m)"
      using wf_top_no_anc [OF wf _ cc True] by (intro map_idI [symmetric]) simp
    ultimately show ?thesis by simp
  next
    case False
    from wf_parent_idx [OF wf cin False] obtain i where
      i: "findIdx (\<lambda>it. Path it = Dir c \<and> IsDir it) (items m) = Some i" "i < length (items m)"
        "Path (items m ! i) = Dir c" "IsDir (items m ! i)" "items m ! i \<in> set (items m)"
      by blast
    define pp where "pp = Dir c"
    define b where "b = areAllDescendantsSelected m pp"
    define g :: "FileItem \<Rightarrow> FileItem"
      where "g = (\<lambda>e. if Path e = pp then e\<lparr>Selected := b\<rparr> else e)"
    define m1 where "m1 = m\<lparr>items := map g (items m)\<rparr>"
    have upd: "(items m)[i := (items m ! i)\<lparr>Selected := b\<rparr>] = map g (items m)"
      using list_update_Path_map [OF wfStore_distinct [OF wf] i(2), of "\<lambda>e. e\<lparr>Selected := b\<rparr>"] i(3)
      by (simp add: g_def pp_def)
    have step: "updateParentSelectionState m c = updateParentSelectionState m1 pp"
      by (subst updateParentSelectionState.simps)
         (simp add: False i(1) Let_def upd [unfolded b_def pp_def] m1_def pp_def)
    have gP: "\<forall>e\<in>set (items m). Path (g e) = Path e \<and> IsDir (g e) = IsDir e"
      by (simp add: g_def)
    have wf1: "wfStore (cwd m1) (items m1)"
      using wfStore_map [OF wf gP] by (simp add: m1_def)
    have pin: "pp \<in> Path ` set (items m1)"
      using i(3,5) gP by (force simp: m1_def pp_def image_iff)
    have lt: "length pp < length c" using length_Dir [OF cc] by (simp add: pp_def)
    from less.IH [OF lt wf1 pin] obtain m' where
      m': "updateParentSelectionState m1 pp = Some m'" "m' = m1\<lparr>items := items m'\<rparr>"
        "items m' = map (\<lambda>e. if prefix (Path e @ ''/'') pp
                             then e\<lparr>Selected := areAllDescendantsSelected m' (Path e)\<rparr>
                             else e) (items m1)"
      by blast
    define h :: "FileItem \<Rightarrow> FileItem" where "h = (\<lambda>e. if prefix (Path e @ ''/'') pp
                             then e\<lparr>Selected := areAllDescendantsSelected m' (Path e)\<rparr>
                             else e)"
    have im': "items m' = map (h \<circ> g) (items m)" using m'(3) by (simp add: h_def m1_def)
    have mm: "m' = m\<lparr>items := map (h \<circ> g) (items m)\<rparr>"
      using m'(2) im' by (simp add: m1_def)
    have ppne: "pp \<noteq> ''/''" using wfStore_D(2) [OF wf i(5)] i(3) by (simp add: pp_def)
    have ppc: "prefix (pp @ ''/'') c" using Dir_slash_prefix [OF cc] ppne by (simp add: pp_def)
    have keep: "\<forall>e\<in>set (items m). Path ((h \<circ> g) e) = Path e \<and>
             (prefix (pp @ ''/'') (Path e) \<longrightarrow> Selected ((h \<circ> g) e) = Selected e)"
    proof
      fix e assume "e \<in> set (items m)"
      have "Path ((h \<circ> g) e) = Path e" by (simp add: h_def g_def)
      moreover have "prefix (pp @ ''/'') (Path e) \<longrightarrow> Selected ((h \<circ> g) e) = Selected e"
      proof
        assume a: "prefix (pp @ ''/'') (Path e)"
        then have "Path e \<noteq> pp" using anc_irrefl by auto
        moreover from a have "\<not> prefix (Path e @ ''/'') pp" by (rule anc_antisym)
        ultimately show "Selected ((h \<circ> g) e) = Selected e" by (simp add: h_def g_def)
      qed
      ultimately show "Path ((h \<circ> g) e) = Path e \<and>
             (prefix (pp @ ''/'') (Path e) \<longrightarrow> Selected ((h \<circ> g) e) = Selected e)" by simp
    qed
    have beq: "areAllDescendantsSelected m' pp = b"
      unfolding b_def by (subst mm) (rule areAll_map_cong [OF wfStore_distinct [OF wf] keep])
    have "map (h \<circ> g) (items m) = map (\<lambda>e. if prefix (Path e @ ''/'') c
                             then e\<lparr>Selected := areAllDescendantsSelected m' (Path e)\<rparr>
                             else e) (items m)"
    proof (rule map_cong [OF refl])
      fix e assume e: "e \<in> set (items m)"
      from wfStore_D [OF wf e] have pe: "Path e \<noteq> []" by simp
      show "(h \<circ> g) e = (if prefix (Path e @ ''/'') c
                             then e\<lparr>Selected := areAllDescendantsSelected m' (Path e)\<rparr>
                             else e)"
      proof (cases "Path e = pp")
        case True
        with ppc anc_irrefl [of pp] beq show ?thesis by (simp add: h_def g_def)
      next
        case False
        have "prefix (Path e @ ''/'') c \<longleftrightarrow> prefix (Path e @ ''/'') pp"
        proof
          assume "prefix (Path e @ ''/'') c"
          from anc_Dir_cases [OF cc pe this] False show "prefix (Path e @ ''/'') pp"
            by (simp add: pp_def)
        next
          assume "prefix (Path e @ ''/'') pp"
          then show "prefix (Path e @ ''/'') c" using ppc by (rule anc_trans)
        qed
        with False show ?thesis by (simp add: h_def g_def)
      qed
    qed
    with im' have "items m' = map (\<lambda>e. if prefix (Path e @ ''/'') c
                             then e\<lparr>Selected := areAllDescendantsSelected m' (Path e)\<rparr>
                             else e) (items m)" by simp
    moreover have "m' = m\<lparr>items := items m'\<rparr>" using m'(2) by (simp add: m1_def)
    ultimately show ?thesis using step m'(1) by simp
  qed
qed

section \<open>Visibility\<close>

lemma in_ancestorDirs:
  "a \<in> set (ancestorDirs root p) \<longleftrightarrow>
   prefix (rootSlash root) a \<and> a \<noteq> root \<and> prefix (a @ ''/'') p"
  by (auto simp: ancestorDirs_def in_set_prefixes dest: append_prefixD)

lemma rootSlash_ne [simp]: "rootSlash r \<noteq> []"
  by (simp add: rootSlash_def)

lemma under_ne: "prefix (rootSlash r) a \<Longrightarrow> a \<noteq> []"
  by auto

lemma under_not_above:
  assumes "prefix (rootSlash r) a"
  shows "\<not> prefix (a @ ''/'') r"
proof
  assume "prefix (a @ ''/'') r"
  then have "length a < length r" by (auto dest: prefix_length_le)
  moreover from assms have "length (rootSlash r) \<le> length a" by (rule prefix_length_le)
  moreover have "length r \<le> length (rootSlash r)" by (simp add: rootSlash_def)
  ultimately show False by simp
qed

lemma anc_iff:
  assumes wf: "wfStore root its" and e: "e \<in> set its"
    and u: "prefix (rootSlash root) a" "a \<noteq> root"
  shows "prefix (a @ ''/'') (Path e) \<longleftrightarrow> a = Dir (Path e) \<or> prefix (a @ ''/'') (Dir (Path e))"
proof
  from wfStore_D [OF wf e] have c: "cleanAbs (Path e)" "Path e \<noteq> ''/''" by auto
  assume "prefix (a @ ''/'') (Path e)"
  from anc_Dir_cases [OF c under_ne [OF u(1)] this]
  show "a = Dir (Path e) \<or> prefix (a @ ''/'') (Dir (Path e))" .
next
  from wfStore_D [OF wf e] have c: "cleanAbs (Path e)" "Path e \<noteq> ''/''"
    and pc: "Dir (Path e) = root \<or> (\<exists>d\<in>set its. IsDir d \<and> Path d = Dir (Path e))" by auto
  assume "a = Dir (Path e) \<or> prefix (a @ ''/'') (Dir (Path e))"
  then show "prefix (a @ ''/'') (Path e)"
  proof
    assume a: "a = Dir (Path e)"
    with u(2) pc obtain d where d: "d \<in> set its" "Path d = Dir (Path e)" by auto
    from wfStore_D(2) [OF wf d(1)] d(2) have "Dir (Path e) \<noteq> ''/''" by simp
    from Dir_slash_prefix [OF c this] a show ?thesis by simp
  next
    assume "prefix (a @ ''/'') (Dir (Path e))"
    with Dir_prefix [OF c] show ?thesis by (rule prefix_order.order_trans [rotated])
  qed
qed

lemma wf_parent_in:
  assumes "wfStore root its" "e \<in> set its"
  shows "Dir (Path e) = root \<or> Dir (Path e) \<in> Path ` set its"
  using wfStore_D(4) [OF assms] by (metis image_eqI)

lemma find_store:
  assumes wf: "wfStore root its" and e: "e \<in> set its"
  shows "find (\<lambda>it. Path it = Path e \<and> IsDir it) its = (if IsDir e then Some e else None)"
proof (cases "IsDir e")
  case True
  with find_distinct_Path_dir [OF wfStore_distinct [OF wf] e] show ?thesis by simp
next
  case False
  have "\<not> (\<exists>x. x \<in> set its \<and> Path x = Path e \<and> IsDir x)"
    using wfStore_eq [OF wf _ e] False by auto
  then have "find (\<lambda>it. Path it = Path e \<and> IsDir it) its = None"
    by (simp add: find_None_iff)
  with False show ?thesis by simp
qed

lemma openDir_store:
  assumes wf: "wfStore root its" and e: "e \<in> set its"
  shows "openDir its (Path e) \<longleftrightarrow> IsDir e \<and> Expanded e"
  using wfStore_eq [OF wf _ e] e unfolding openDir_def by auto

lemma isVisibleFrom_spec:
  "wfStore (cwd m) (items m) \<Longrightarrow> q = cwd m \<or> q \<in> Path ` set (items m) \<Longrightarrow>
   isVisibleFrom m q =
     Some (\<forall>a. prefix (rootSlash (cwd m)) a \<and> a \<noteq> cwd m \<and> (a = q \<or> prefix (a @ ''/'') q)
              \<longrightarrow> openDir (items m) a)"
proof (induction q rule: measure_induct_rule [where f = length])
  case (less q)
  note wf = less.prems(1)
  show ?case
  proof (cases "q = cwd m")
    case True
    have "isVisibleFrom m q = Some True"
      by (subst isVisibleFrom.simps) (simp add: True)
    moreover have "\<forall>a. prefix (rootSlash (cwd m)) a \<and> a \<noteq> cwd m \<and> (a = q \<or> prefix (a @ ''/'') q)
              \<longrightarrow> openDir (items m) a"
      using True under_not_above by auto
    ultimately show ?thesis by simp
  next
    case False
    with less.prems(2) obtain e where e: "e \<in> set (items m)" "Path e = q" by auto
    from wfStore_D [OF wf e(1)] e(2) have c: "cleanAbs q" "q \<noteq> ''/''"
      and pc: "Dir q = cwd m \<or> (\<exists>d\<in>set (items m). IsDir d \<and> Path d = Dir q)" by auto
    from c(1) have qd: "q \<noteq> ''.''" by (auto simp: cleanAbs_def)
    from wf_under [OF wf e(1)] e(2) have uq: "prefix (rootSlash (cwd m)) q" by simp
    have fnd: "find (\<lambda>it. Path it = q \<and> IsDir it) (items m) = (if IsDir e then Some e else None)"
      using find_store [OF wf e(1)] e(2) by simp
    have od: "openDir (items m) q \<longleftrightarrow> IsDir e \<and> Expanded e"
      using openDir_store [OF wf e(1)] e(2) by simp
    show ?thesis
    proof (cases "IsDir e \<and> Expanded e")
      case False
      then have "isVisibleFrom m q = Some False"
        by (subst isVisibleFrom.simps) (auto simp: \<open>q \<noteq> cwd m\<close> qd fnd)
      moreover have "\<not> (\<forall>a. prefix (rootSlash (cwd m)) a \<and> a \<noteq> cwd m \<and> (a = q \<or> prefix (a @ ''/'') q)
              \<longrightarrow> openDir (items m) a)"
        using False od uq \<open>q \<noteq> cwd m\<close> by blast
      ultimately show ?thesis by simp
    next
      case True
      then have step: "isVisibleFrom m q = isVisibleFrom m (Dir q)"
        by (subst isVisibleFrom.simps) (simp add: \<open>q \<noteq> cwd m\<close> qd fnd)
      have lt: "length (Dir q) < length q" by (rule length_Dir [OF c])
      from wf_parent_in [OF wf e(1)] e(2)
      have "Dir q = cwd m \<or> Dir q \<in> Path ` set (items m)" by simp
      from less.IH [OF lt wf this] have
        ih: "isVisibleFrom m (Dir q) =
          Some (\<forall>a. prefix (rootSlash (cwd m)) a \<and> a \<noteq> cwd m \<and>
                    (a = Dir q \<or> prefix (a @ ''/'') (Dir q)) \<longrightarrow> openDir (items m) a)" .
      have "(\<forall>a. prefix (rootSlash (cwd m)) a \<and> a \<noteq> cwd m \<and> (a = q \<or> prefix (a @ ''/'') q)
              \<longrightarrow> openDir (items m) a) \<longleftrightarrow>
            (\<forall>a. prefix (rootSlash (cwd m)) a \<and> a \<noteq> cwd m \<and>
                    (a = Dir q \<or> prefix (a @ ''/'') (Dir q)) \<longrightarrow> openDir (items m) a)"
        using anc_iff [OF wf e(1)] e(2) od True by (metis (no_types, lifting))
      with step ih show ?thesis by simp
    qed
  qed
qed

lemma isVisible_spec:
  assumes wf: "wfStore (cwd m) (items m)" and e: "e \<in> set (items m)"
    and d0: "Depth e = 0 \<longrightarrow> Dir (Path e) = cwd m"
  shows "isVisible m e = Some (\<forall>a\<in>set (ancestorDirs (cwd m) (Path e)). openDir (items m) a)"
proof -
  from wf_parent_in [OF wf e]
  have q: "Dir (Path e) = cwd m \<or> Dir (Path e) \<in> Path ` set (items m)" .
  have eq: "(\<forall>a\<in>set (ancestorDirs (cwd m) (Path e)). openDir (items m) a) \<longleftrightarrow>
        (\<forall>a. prefix (rootSlash (cwd m)) a \<and> a \<noteq> cwd m \<and>
             (a = Dir (Path e) \<or> prefix (a @ ''/'') (Dir (Path e))) \<longrightarrow> openDir (items m) a)"
  proof -
    have "\<And>a. a \<in> set (ancestorDirs (cwd m) (Path e)) \<longleftrightarrow>
        prefix (rootSlash (cwd m)) a \<and> a \<noteq> cwd m \<and>
             (a = Dir (Path e) \<or> prefix (a @ ''/'') (Dir (Path e)))"
      unfolding in_ancestorDirs using anc_iff [OF wf e] by blast
    then show ?thesis by blast
  qed
  show ?thesis
  proof (cases "Depth e = 0")
    case True
    with d0 have top: "Dir (Path e) = cwd m" by simp
    have "\<forall>a. prefix (rootSlash (cwd m)) a \<and> a \<noteq> cwd m \<and>
             (a = Dir (Path e) \<or> prefix (a @ ''/'') (Dir (Path e))) \<longrightarrow> openDir (items m) a"
      using top under_not_above by auto
    with eq True show ?thesis by (simp add: isVisible_def)
  next
    case False
    with isVisibleFrom_spec [OF wf q] eq show ?thesis by (simp add: isVisible_def)
  qed
qed

lemma isVisible_total:
  assumes wf: "wfStore (cwd m) (items m)" and e: "e \<in> set (items m)"
  shows "\<exists>b. isVisible m e = Some b"
proof -
  from wf_parent_in [OF wf e]
  have q: "Dir (Path e) = cwd m \<or> Dir (Path e) \<in> Path ` set (items m)" .
  from isVisibleFrom_spec [OF wf q] show ?thesis by (auto simp: isVisible_def)
qed

lemma refreshFrom_wf:
  "wfStore (cwd m) (items m) \<Longrightarrow> set its \<subseteq> set (items m) \<Longrightarrow>
   \<forall>e\<in>set its. Path e \<in> set sel \<longrightarrow> Selected e \<Longrightarrow>
   refreshFrom m sel its = Some (its, filter (\<lambda>e. isVisible m e = Some True) its)"
proof (induction its)
  case Nil
  then show ?case by simp
next
  case (Cons e its)
  from Cons.prems have ih: "refreshFrom m sel its = Some (its, filter (\<lambda>e. isVisible m e = Some True) its)"
    by (intro Cons.IH) auto
  from Cons.prems have "e \<in> set (items m)" by simp
  from isVisible_total [OF Cons.prems(1) this] obtain b where b: "isVisible m e = Some b" by blast
  from Cons.prems(3) have "Path e \<in> set sel \<longrightarrow> e\<lparr>Selected := True\<rparr> = e" by simp
  with ih b show ?case by (auto simp: Let_def)
qed

lemma refreshVisibleItems_wf:
  assumes wf: "wfStore (cwd m) (items m)"
  shows "refreshVisibleItems m =
     Some (m\<lparr>listItems := filter (\<lambda>e. isVisible m e = Some True) (items m)\<rparr>)"
proof -
  have "\<forall>e\<in>set (items m). Path e \<in> set (map Path (filter Selected (items m))) \<longrightarrow> Selected e"
    using wfStore_eq [OF wf] by auto
  from refreshFrom_wf [OF wf subset_refl this] show ?thesis
    by (simp add: refreshVisibleItems_def)
qed

text \<open>Visibility in a store whose entries need not have their parents in the store.\<close>

lemma below_ne_slash:
  assumes "cleanAbs r" "prefix (rootSlash r) q" "q \<noteq> r"
  shows "q \<noteq> ''/''"
proof
  assume q: "q = ''/''"
  from assms(1) have "r \<noteq> []" by (simp add: cleanAbs_def)
  with assms(2,3) q show False
    by (cases r) (auto simp: rootSlash_def split: if_splits)
qed

lemma below_Dir:
  assumes r: "cleanAbs r" and q: "cleanAbs q" and u: "prefix (rootSlash r) q" and ne: "q \<noteq> r"
  shows "Dir q = r \<or> (prefix (rootSlash r) (Dir q) \<and> Dir q \<noteq> r)"
proof -
  from below_ne_slash [OF r u ne] have qs: "q \<noteq> ''/''" .
  from cleanAbs_Dir [OF q qs] have cd: "cleanAbs (Dir q)" by simp
  show ?thesis
  proof (cases "r = ''/''")
    case True
    from cd have "prefix ''/'' (Dir q)" by (cases "Dir q") (auto simp: cleanAbs_def)
    with True show ?thesis by (auto simp: rootSlash_def)
  next
    case False
    with u have "prefix (r @ ''/'') q" by (simp add: rootSlash_def)
    from anc_Dir_cases [OF q qs cleanAbs_ne [OF r] this] False
    show ?thesis by (auto simp: rootSlash_def)
  qed
qed

lemma treeStore_D:
  assumes "treeStore root its" "e \<in> set its"
  shows "cleanAbs (Path e)" "prefix (rootSlash root) (Path e)" "Path e \<noteq> root" "Path e \<noteq> ''/''"
    "cleanAbs root" "distinct (map Path its)"
proof -
  from assms show a: "cleanAbs (Path e)" "prefix (rootSlash root) (Path e)" "Path e \<noteq> root"
    "cleanAbs root" "distinct (map Path its)"
    by (auto simp: treeStore_def)
  from below_ne_slash [OF a(4) a(2) a(3)] show "Path e \<noteq> ''/''" .
qed

lemma treeStore_eq:
  "treeStore root its \<Longrightarrow> a \<in> set its \<Longrightarrow> b \<in> set its \<Longrightarrow> Path a = Path b \<Longrightarrow> a = b"
  by (auto simp: treeStore_def distinct_map inj_on_def)

lemma anc_step:
  assumes r: "cleanAbs r" and q: "cleanAbs q" and u: "prefix (rootSlash r) q" and ne: "q \<noteq> r"
    and a: "prefix (rootSlash r) a" "a \<noteq> r"
  shows "prefix (a @ ''/'') q \<longleftrightarrow> a = Dir q \<or> prefix (a @ ''/'') (Dir q)"
proof
  from below_ne_slash [OF r u ne] have qs: "q \<noteq> ''/''" .
  assume "prefix (a @ ''/'') q"
  from anc_Dir_cases [OF q qs under_ne [OF a(1)] this]
  show "a = Dir q \<or> prefix (a @ ''/'') (Dir q)" .
next
  from below_ne_slash [OF r u ne] have qs: "q \<noteq> ''/''" .
  assume "a = Dir q \<or> prefix (a @ ''/'') (Dir q)"
  then show "prefix (a @ ''/'') q"
  proof
    assume e: "a = Dir q"
    from below_ne_slash [OF r a] e have "Dir q \<noteq> ''/''" by simp
    from Dir_slash_prefix [OF q qs this] e show ?thesis by simp
  next
    assume "prefix (a @ ''/'') (Dir q)"
    with Dir_prefix [OF q qs] show ?thesis by (rule prefix_order.order_trans [rotated])
  qed
qed

lemma isVisibleFrom_tree:
  "treeStore (cwd m) (items m) \<Longrightarrow> cleanAbs q \<Longrightarrow>
   q = cwd m \<or> (prefix (rootSlash (cwd m)) q \<and> q \<noteq> cwd m) \<Longrightarrow>
   isVisibleFrom m q =
     Some (\<forall>a. prefix (rootSlash (cwd m)) a \<and> a \<noteq> cwd m \<and> (a = q \<or> prefix (a @ ''/'') q)
              \<longrightarrow> openDir (items m) a)"
proof (induction q rule: measure_induct_rule [where f = length])
  case (less q)
  note ts = less.prems(1) and cq = less.prems(2)
  from ts have cr: "cleanAbs (cwd m)" by (simp add: treeStore_def)
  show ?case
  proof (cases "q = cwd m")
    case True
    have "isVisibleFrom m q = Some True"
      by (subst isVisibleFrom.simps) (simp add: True)
    moreover have "\<forall>a. prefix (rootSlash (cwd m)) a \<and> a \<noteq> cwd m \<and> (a = q \<or> prefix (a @ ''/'') q)
              \<longrightarrow> openDir (items m) a"
      using True under_not_above by auto
    ultimately show ?thesis by simp
  next
    case False
    with less.prems(3) have uq: "prefix (rootSlash (cwd m)) q" by simp
    from below_ne_slash [OF cr uq False] have qs: "q \<noteq> ''/''" .
    from cq have qd: "q \<noteq> ''.''" by (auto simp: cleanAbs_def)
    show ?thesis
    proof (cases "openDir (items m) q")
      case no: False
      have "isVisibleFrom m q = Some False"
      proof (cases "find (\<lambda>it. Path it = q \<and> IsDir it) (items m)")
        case None
        then show ?thesis by (subst isVisibleFrom.simps) (simp add: False qd)
      next
        case (Some d)
        then have d: "d \<in> set (items m)" "Path d = q" "IsDir d"
          by (auto simp: find_Some_iff in_set_conv_nth)
        with no have "\<not> Expanded d" by (auto simp: openDir_def)
        with Some show ?thesis by (subst isVisibleFrom.simps) (simp add: False qd)
      qed
      moreover have "\<not> (\<forall>a. prefix (rootSlash (cwd m)) a \<and> a \<noteq> cwd m \<and> (a = q \<or> prefix (a @ ''/'') q)
              \<longrightarrow> openDir (items m) a)"
        using no uq False by blast
      ultimately show ?thesis by simp
    next
      case yes: True
      then obtain d where d: "d \<in> set (items m)" "Path d = q" "IsDir d" "Expanded d"
        by (auto simp: openDir_def)
      from find_distinct_Path_dir [OF treeStore_D(6) [OF ts d(1)] d(1) d(3)] d(2)
      have fnd: "find (\<lambda>it. Path it = q \<and> IsDir it) (items m) = Some d" by simp
      have step: "isVisibleFrom m q = isVisibleFrom m (Dir q)"
        by (subst isVisibleFrom.simps) (simp add: False qd fnd d(4))
      have lt: "length (Dir q) < length q" by (rule length_Dir [OF cq qs])
      from cleanAbs_Dir [OF cq qs] have cd: "cleanAbs (Dir q)" by simp
      from below_Dir [OF cr cq uq False]
      have b: "Dir q = cwd m \<or> (prefix (rootSlash (cwd m)) (Dir q) \<and> Dir q \<noteq> cwd m)" .
      from less.IH [OF lt ts cd b] have
        ih: "isVisibleFrom m (Dir q) =
          Some (\<forall>a. prefix (rootSlash (cwd m)) a \<and> a \<noteq> cwd m \<and>
                    (a = Dir q \<or> prefix (a @ ''/'') (Dir q)) \<longrightarrow> openDir (items m) a)" .
      have "(\<forall>a. prefix (rootSlash (cwd m)) a \<and> a \<noteq> cwd m \<and> (a = q \<or> prefix (a @ ''/'') q)
              \<longrightarrow> openDir (items m) a) \<longleftrightarrow>
            (\<forall>a. prefix (rootSlash (cwd m)) a \<and> a \<noteq> cwd m \<and>
                    (a = Dir q \<or> prefix (a @ ''/'') (Dir q)) \<longrightarrow> openDir (items m) a)"
        using anc_step [OF cr cq uq False] yes by (metis (no_types, lifting))
      with step ih show ?thesis by simp
    qed
  qed
qed

lemma isVisible_tree:
  assumes ts: "treeStore (cwd m) (items m)" and e: "e \<in> set (items m)"
  shows "isVisible m e =
     Some (Depth e = 0 \<or> (\<forall>a\<in>set (ancestorDirs (cwd m) (Path e)). openDir (items m) a))"
proof -
  from treeStore_D [OF ts e] have c: "cleanAbs (Path e)" and u: "prefix (rootSlash (cwd m)) (Path e)"
    and ne: "Path e \<noteq> cwd m" and ns: "Path e \<noteq> ''/''" and cr: "cleanAbs (cwd m)" by auto
  from cleanAbs_Dir [OF c ns] have cd: "cleanAbs (Dir (Path e))" by simp
  from below_Dir [OF cr c u ne]
  have b: "Dir (Path e) = cwd m \<or>
      (prefix (rootSlash (cwd m)) (Dir (Path e)) \<and> Dir (Path e) \<noteq> cwd m)" .
  have "\<And>a. a \<in> set (ancestorDirs (cwd m) (Path e)) \<longleftrightarrow>
        prefix (rootSlash (cwd m)) a \<and> a \<noteq> cwd m \<and>
             (a = Dir (Path e) \<or> prefix (a @ ''/'') (Dir (Path e)))"
    unfolding in_ancestorDirs using anc_step [OF cr c u ne] by blast
  then have eq: "(\<forall>a\<in>set (ancestorDirs (cwd m) (Path e)). openDir (items m) a) \<longleftrightarrow>
        (\<forall>a. prefix (rootSlash (cwd m)) a \<and> a \<noteq> cwd m \<and>
             (a = Dir (Path e) \<or> prefix (a @ ''/'') (Dir (Path e))) \<longrightarrow> openDir (items m) a)"
    by blast
  show ?thesis
  proof (cases "Depth e = 0")
    case True
    then show ?thesis by (simp add: isVisible_def)
  next
    case False
    with isVisibleFrom_tree [OF ts cd b] eq show ?thesis by (simp add: isVisible_def)
  qed
qed

lemma top_no_ancestorDirs: "Dir p = r \<Longrightarrow> cleanAbs p \<Longrightarrow> cleanAbs r \<Longrightarrow> p \<noteq> r \<Longrightarrow>
    prefix (rootSlash r) p \<Longrightarrow> ancestorDirs r p = []"
proof -
  assume d: "Dir p = r" and c: "cleanAbs p" and r: "cleanAbs r" and ne: "p \<noteq> r"
    and u: "prefix (rootSlash r) p"
  have "\<And>a. a \<notin> set (ancestorDirs r p)"
  proof
    fix a assume "a \<in> set (ancestorDirs r p)"
    then have a: "prefix (rootSlash r) a" "a \<noteq> r" "prefix (a @ ''/'') p"
      by (simp_all add: in_ancestorDirs)
    from anc_step [OF r c u ne a(1,2)] a(3) d have "a = r \<or> prefix (a @ ''/'') r" by simp
    with a(2) under_not_above [OF a(1)] show False by simp
  qed
  then show ?thesis by (cases "ancestorDirs r p") auto
qed

lemma refreshFrom_tree:
  "treeStore (cwd m) (items m) \<Longrightarrow> set its \<subseteq> set (items m) \<Longrightarrow>
   \<forall>e\<in>set its. Path e \<in> set sel \<longrightarrow> Selected e \<Longrightarrow>
   refreshFrom m sel its = Some (its, filter (\<lambda>e. isVisible m e = Some True) its)"
proof (induction its)
  case Nil
  then show ?case by simp
next
  case (Cons e its)
  from Cons.prems have ih: "refreshFrom m sel its = Some (its, filter (\<lambda>e. isVisible m e = Some True) its)"
    by (intro Cons.IH) auto
  from Cons.prems have "e \<in> set (items m)" by simp
  from isVisible_tree [OF Cons.prems(1) this] obtain b where b: "isVisible m e = Some b" by blast
  from Cons.prems(3) have "Path e \<in> set sel \<longrightarrow> e\<lparr>Selected := True\<rparr> = e" by simp
  with ih b show ?case by (auto simp: Let_def)
qed

lemma refreshVisibleItems_tree:
  assumes ts: "treeStore (cwd m) (items m)"
  shows "refreshVisibleItems m =
     Some (m\<lparr>listItems := filter (\<lambda>e. isVisible m e = Some True) (items m)\<rparr>)"
proof -
  have "\<forall>e\<in>set (items m). Path e \<in> set (map Path (filter Selected (items m))) \<longrightarrow> Selected e"
    using treeStore_eq [OF ts] by auto
  from refreshFrom_tree [OF ts subset_refl this] show ?thesis
    by (simp add: refreshVisibleItems_def)
qed

section \<open>Toggling a selection\<close>

lemma toggle_noop:
  "(\<forall>e\<in>set (items m). Path e \<noteq> p) \<or> isGitIgnored m p \<Longrightarrow> toggleSelection m p f = Some m"
proof (cases "findIdx (\<lambda>it. Path it = p) (items m)")
  case None
  then show ?thesis by (simp add: toggleSelection_def)
next
  case (Some i)
  assume a: "(\<forall>e\<in>set (items m). Path e \<noteq> p) \<or> isGitIgnored m p"
  from findIdx_Some [OF Some] have "i < length (items m)" "Path (items m ! i) = p" by auto
  with a have "isGitIgnored m (Path (items m ! i))" by (metis nth_mem)
  with Some show ?thesis by (simp add: toggleSelection_def Let_def)
qed

lemma toggle_spec:
  fixes f :: "bool option" and cur :: FileItem
  assumes wf: "wfStore (cwd m) (items m)" and cur: "cur \<in> set (items m)" "Path cur = p"
    and ni: "\<not> isGitIgnored m p"
  defines "v \<equiv> (case f of Some b \<Rightarrow> b | None \<Rightarrow> \<not> Selected cur)"
  shows "\<exists>m'. toggleSelection m p f = Some m' \<and>
      m' = m\<lparr>items := items m', listItems := listItems m'\<rparr> \<and>
      items m' = map (\<lambda>e. if prefix (Path e @ ''/'') p
                            then e\<lparr>Selected := areAllDescendantsSelected m' (Path e)\<rparr>
                          else if Path e = p \<or> (IsDir cur \<and> prefix (p @ ''/'') (Path e) \<and>
                                    \<not> isGitIgnored m (Path e))
                            then e\<lparr>Selected := v\<rparr> else e) (items m) \<and>
      listItems m' = filter (\<lambda>e. isVisible m' e = Some True) (items m')"
proof -
  from findIdx_ex [of cur "items m" "\<lambda>it. Path it = p"] cur
  obtain i where i: "findIdx (\<lambda>it. Path it = p) (items m) = Some i" by auto
  from findIdx_Some [OF i] have il: "i < length (items m)" and ip: "Path (items m ! i) = p" by auto
  have ci: "items m ! i = cur" using wfStore_eq [OF wf _ cur(1)] il ip cur(2) by simp
  define g :: "FileItem \<Rightarrow> FileItem" where
    "g = (\<lambda>e. if Path e = p \<or> (IsDir cur \<and> prefix (p @ ''/'') (Path e) \<and>
                                    \<not> isGitIgnored m (Path e))
              then e\<lparr>Selected := v\<rparr> else e)"
  define m1 where "m1 = m\<lparr>items := map g (items m)\<rparr>"
  have upd: "\<And>b. (items m)[i := cur\<lparr>Selected := b\<rparr>] =
      map (\<lambda>e. if Path e = p then e\<lparr>Selected := b\<rparr> else e) (items m)"
  proof -
    fix b
    from list_update_Path_map [OF wfStore_distinct [OF wf] il, of "\<lambda>e. e\<lparr>Selected := b\<rparr>"] ci ip
    show "(items m)[i := cur\<lparr>Selected := b\<rparr>] =
      map (\<lambda>e. if Path e = p then e\<lparr>Selected := b\<rparr> else e) (items m)" by simp
  qed
  have casc: "\<And>b. setSelectionStateForDescendants
          (m\<lparr>items := (items m)[i := cur\<lparr>Selected := b\<rparr>]\<rparr>) p b =
        m\<lparr>items := map (\<lambda>e. if Path e = p \<or> (prefix (p @ ''/'') (Path e) \<and>
                                    \<not> isGitIgnored m (Path e))
              then e\<lparr>Selected := b\<rparr> else e) (items m)\<rparr>"
    unfolding upd setSelectionStateForDescendants_def by auto
  have m1eq: "m1 =
      (if IsDir cur then
         (if (Selected cur \<and> \<not> (f \<noteq> None)) \<or> ((f \<noteq> None) \<and> \<not> (f = Some True)) then
            setSelectionStateForDescendants
              (m\<lparr>items := (items m)[i := cur\<lparr>Selected := False\<rparr>]\<rparr>) (Path cur) False
          else
            setSelectionStateForDescendants
              (m\<lparr>items := (items m)[i := cur\<lparr>Selected := True\<rparr>]\<rparr>) (Path cur) True)
       else if f \<noteq> None then
         m\<lparr>items := (items m)[i := cur\<lparr>Selected := (f = Some True)\<rparr>]\<rparr>
       else
         m\<lparr>items := (items m)[i := cur\<lparr>Selected := \<not> Selected cur\<rparr>]\<rparr>)"
  proof (cases "IsDir cur")
    case True
    then show ?thesis
      unfolding cur(2) casc m1_def g_def v_def
      by (cases f; cases "Selected cur") auto
  next
    case False
    then show ?thesis
      unfolding upd m1_def g_def v_def
      by (cases f; cases "Selected cur") auto
  qed
  have tg: "toggleSelection m p f =
      (case updateParentSelectionState m1 p of None \<Rightarrow> None | Some m2 \<Rightarrow> refreshVisibleItems m2)"
    unfolding m1eq using ni by (simp add: toggleSelection_def i ci cur(2) Let_def)
  have gP: "\<forall>e\<in>set (items m). Path (g e) = Path e \<and> IsDir (g e) = IsDir e"
    by (simp add: g_def)
  have wf1: "wfStore (cwd m1) (items m1)"
    using wfStore_map [OF wf gP] by (simp add: m1_def)
  have pin: "p \<in> Path ` set (items m1)"
    using cur gP by (force simp: m1_def image_iff)
  from upd_spec [OF wf1 pin] obtain m2 where
    m2: "updateParentSelectionState m1 p = Some m2" "m2 = m1\<lparr>items := items m2\<rparr>"
      "items m2 = map (\<lambda>e. if prefix (Path e @ ''/'') p
                             then e\<lparr>Selected := areAllDescendantsSelected m2 (Path e)\<rparr>
                             else e) (items m1)"
    by blast
  define h :: "FileItem \<Rightarrow> FileItem" where
    "h = (\<lambda>e. if prefix (Path e @ ''/'') p
               then e\<lparr>Selected := areAllDescendantsSelected m2 (Path e)\<rparr> else e)"
  have hP: "\<forall>e\<in>set (items m1). Path (h e) = Path e \<and> IsDir (h e) = IsDir e"
    by (simp add: h_def)
  have "cwd m2 = cwd m1" by (subst m2(2)) simp
  with wfStore_map [OF wf1 hP] m2(3) have wf2: "wfStore (cwd m2) (items m2)"
    by (simp add: h_def)
  define m' where "m' = m2\<lparr>listItems := filter (\<lambda>e. isVisible m2 e = Some True) (items m2)\<rparr>"
  have r: "refreshVisibleItems m2 = Some m'"
    using refreshVisibleItems_wf [OF wf2] by (simp add: m'_def)
  have vis: "\<And>e. isVisible m' e = isVisible m2 e"
  proof -
    have "\<And>q. isVisibleFrom m' q = isVisibleFrom m2 q"
    proof -
      fix q
      have a: "cwd m' = cwd m2" "items m' = items m2" by (simp_all add: m'_def)
      have "wfStore (cwd m') (items m')" using wf2 a by simp
      show "isVisibleFrom m' q = isVisibleFrom m2 q"
      proof (induction q rule: measure_induct_rule [where f = length])
        case (less q)
        show ?case
        proof (cases "q \<noteq> cwd m2 \<and> q \<noteq> ''.'' \<and>
            (\<exists>d. find (\<lambda>it. Path it = q \<and> IsDir it) (items m2) = Some d \<and> Expanded d)")
          case False
          then show ?thesis
            by (subst isVisibleFrom.simps, subst (2) isVisibleFrom.simps)
               (auto simp: a split: option.splits)
        next
          case True
          then obtain d where d: "find (\<lambda>it. Path it = q \<and> IsDir it) (items m2) = Some d" "Expanded d"
            by blast
          then have "d \<in> set (items m2)" "Path d = q"
            by (auto simp: find_Some_iff)
          with wfStore_D [OF wf2] have "cleanAbs q" "q \<noteq> ''/''" by auto
          from length_Dir [OF this] have "isVisibleFrom m' (Dir q) = isVisibleFrom m2 (Dir q)"
            by (rule less.IH)
          with True d show ?thesis
            by (subst isVisibleFrom.simps, subst (2) isVisibleFrom.simps) (simp add: a)
        qed
      qed
    qed
    then show "\<And>e. isVisible m' e = isVisible m2 e" by (simp add: isVisible_def)
  qed
  have i': "items m' = items m2" by (simp add: m'_def)
  have "items m' = map (\<lambda>e. if prefix (Path e @ ''/'') p
                            then e\<lparr>Selected := areAllDescendantsSelected m' (Path e)\<rparr>
                          else if Path e = p \<or> (IsDir cur \<and> prefix (p @ ''/'') (Path e) \<and>
                                    \<not> isGitIgnored m (Path e))
                            then e\<lparr>Selected := v\<rparr> else e) (items m)"
  proof -
    have "items m' = map (h \<circ> g) (items m)"
      using m2(3) by (simp add: i' h_def m1_def)
    also have "\<dots> = map (\<lambda>e. if prefix (Path e @ ''/'') p
                            then e\<lparr>Selected := areAllDescendantsSelected m' (Path e)\<rparr>
                          else if Path e = p \<or> (IsDir cur \<and> prefix (p @ ''/'') (Path e) \<and>
                                    \<not> isGitIgnored m (Path e))
                            then e\<lparr>Selected := v\<rparr> else e) (items m)"
    proof (rule map_cong [OF refl])
      fix e assume "e \<in> set (items m)"
      show "(h \<circ> g) e = (if prefix (Path e @ ''/'') p
                            then e\<lparr>Selected := areAllDescendantsSelected m' (Path e)\<rparr>
                          else if Path e = p \<or> (IsDir cur \<and> prefix (p @ ''/'') (Path e) \<and>
                                    \<not> isGitIgnored m (Path e))
                            then e\<lparr>Selected := v\<rparr> else e)"
      proof (cases "prefix (Path e @ ''/'') p")
        case True
        then have "Path e \<noteq> p" "\<not> prefix (p @ ''/'') (Path e)"
          using anc_irrefl anc_antisym by auto
        with True show ?thesis by (simp add: h_def g_def m'_def)
      next
        case False
        then show ?thesis by (simp add: h_def g_def)
      qed
    qed
    finally show ?thesis .
  qed
  moreover have "m' = m\<lparr>items := items m', listItems := listItems m'\<rparr>"
    by (subst m'_def, subst m2(2)) (simp add: m1_def m'_def)
  moreover have "listItems m' = filter (\<lambda>e. isVisible m' e = Some True) (items m')"
    by (simp add: vis) (simp add: m'_def)
  moreover have "toggleSelection m p f = Some m'" using tg m2(1) r by simp
  ultimately show ?thesis by blast
qed

lemma wf_anc_isDir:
  "wfStore root its \<Longrightarrow> e \<in> set its \<Longrightarrow> x \<in> set its \<Longrightarrow>
   prefix (Path e @ ''/'') (Path x) \<Longrightarrow> IsDir e"
proof (induction "Path x" arbitrary: x rule: measure_induct_rule [where f = length])
  case less
  note wf = less.prems(1) and e = less.prems(2) and x = less.prems(3) and a = less.prems(4)
  from wfStore_D [OF wf x] have c: "cleanAbs (Path x)" "Path x \<noteq> ''/''"
    and pc: "Dir (Path x) = root \<or> (\<exists>d\<in>set its. IsDir d \<and> Path d = Dir (Path x))" by auto
  from wfStore_D [OF wf e] have pe: "Path e \<noteq> []" by simp
  from anc_Dir_cases [OF c pe a]
  have cs: "Path e = Dir (Path x) \<or> prefix (Path e @ ''/'') (Dir (Path x))" .
  from pc show ?case
  proof
    assume "Dir (Path x) = root"
    with cs wf_under [OF wf e] wf_no_anc_of_root [OF wf e] show ?thesis by auto
  next
    assume "\<exists>d\<in>set its. IsDir d \<and> Path d = Dir (Path x)"
    then obtain d where d: "d \<in> set its" "IsDir d" "Path d = Dir (Path x)" by blast
    from cs show ?thesis
    proof
      assume "Path e = Dir (Path x)"
      with d wfStore_eq [OF wf e d(1)] show ?thesis by simp
    next
      assume b: "prefix (Path e @ ''/'') (Dir (Path x))"
      from length_Dir [OF c] d(3) have lt: "length (Path d) < length (Path x)" by simp
      from less.hyps [OF lt wf e d(1)] b d(3) show ?thesis by simp
    qed
  qed
qed

lemma toggle_frame:
  fixes f :: "bool option"
  assumes wf: "wfStore (cwd m) (items m)"
  shows "\<exists>m' k. toggleSelection m p f = Some m' \<and>
      m' = m\<lparr>items := map k (items m), listItems := listItems m'\<rparr> \<and>
      (\<forall>e\<in>set (items m). k e = e\<lparr>Selected := Selected (k e)\<rparr> \<and>
         (k e \<noteq> e \<longrightarrow> \<not> isGitIgnored m p \<and>
            (Path e = p \<or> (prefix (p @ ''/'') (Path e) \<and> \<not> isGitIgnored m (Path e)) \<or>
             prefix (Path e @ ''/'') p)))"
proof (cases "(\<forall>e\<in>set (items m). Path e \<noteq> p) \<or> isGitIgnored m p")
  case True
  from toggle_noop [OF this] have "toggleSelection m p f = Some m" .
  moreover have "m = m\<lparr>items := map id (items m), listItems := listItems m\<rparr>" by simp
  ultimately show ?thesis by (intro exI [of _ m] exI [of _ id]) auto
next
  case False
  then obtain cur where cur: "cur \<in> set (items m)" "Path cur = p" and ni: "\<not> isGitIgnored m p"
    by auto
  from toggle_spec [OF wf cur ni, of f] obtain m' where
    m': "toggleSelection m p f = Some m'"
      "m' = m\<lparr>items := items m', listItems := listItems m'\<rparr>"
      "items m' = map (\<lambda>e. if prefix (Path e @ ''/'') p
                            then e\<lparr>Selected := areAllDescendantsSelected m' (Path e)\<rparr>
                          else if Path e = p \<or> (IsDir cur \<and> prefix (p @ ''/'') (Path e) \<and>
                                    \<not> isGitIgnored m (Path e))
                            then e\<lparr>Selected := (case f of Some b \<Rightarrow> b | None \<Rightarrow> \<not> Selected cur)\<rparr>
                          else e) (items m)"
    by blast
  define k :: "FileItem \<Rightarrow> FileItem" where
    "k = (\<lambda>e. if prefix (Path e @ ''/'') p
                            then e\<lparr>Selected := areAllDescendantsSelected m' (Path e)\<rparr>
                          else if Path e = p \<or> (IsDir cur \<and> prefix (p @ ''/'') (Path e) \<and>
                                    \<not> isGitIgnored m (Path e))
                            then e\<lparr>Selected := (case f of Some b \<Rightarrow> b | None \<Rightarrow> \<not> Selected cur)\<rparr>
                          else e)"
  have "m' = m\<lparr>items := map k (items m), listItems := listItems m'\<rparr>"
    by (subst m'(2)) (simp add: m'(3) k_def)
  moreover have "\<forall>e\<in>set (items m). k e = e\<lparr>Selected := Selected (k e)\<rparr> \<and>
         (k e \<noteq> e \<longrightarrow> \<not> isGitIgnored m p \<and>
            (Path e = p \<or> (prefix (p @ ''/'') (Path e) \<and> \<not> isGitIgnored m (Path e)) \<or>
             prefix (Path e @ ''/'') p))"
    using ni by (auto simp: k_def)
  ultimately show ?thesis using m'(1) by blast
qed

lemma toggle_pres:
  fixes f :: "bool option"
  assumes wf: "wfStore (cwd m) (items m)" and t: "toggleSelection m p f = Some m'"
  shows "cwd m' = cwd m" "gitignoreRegexp m' = gitignoreRegexp m" "isGitIgnored m' = isGitIgnored m"
    "wfStore (cwd m') (items m')" "map Path (items m') = map Path (items m)"
proof -
  from toggle_frame [OF wf, of p f] t obtain k where
    k: "m' = m\<lparr>items := map k (items m), listItems := listItems m'\<rparr>"
       "\<forall>e\<in>set (items m). k e = e\<lparr>Selected := Selected (k e)\<rparr>"
    by auto
  show c: "cwd m' = cwd m" by (subst k(1)) simp
  show g: "gitignoreRegexp m' = gitignoreRegexp m" by (subst k(1)) simp
  then show "isGitIgnored m' = isGitIgnored m" by (intro ext) (simp add: isGitIgnored_def)
  have kP: "\<forall>e\<in>set (items m). Path (k e) = Path e \<and> IsDir (k e) = IsDir e"
  proof
    fix e assume "e \<in> set (items m)"
    with k(2) have "k e = e\<lparr>Selected := Selected (k e)\<rparr>" by simp
    then have "Path (k e) = Path (e\<lparr>Selected := Selected (k e)\<rparr>)"
      "IsDir (k e) = IsDir (e\<lparr>Selected := Selected (k e)\<rparr>)" by simp_all
    then show "Path (k e) = Path e \<and> IsDir (k e) = IsDir e" by simp
  qed
  have im: "items m' = map k (items m)" by (subst k(1)) simp
  from wfStore_map [OF wf kP] c im show "wfStore (cwd m') (items m')" by simp
  from map_Path_map [of "items m" k] kP im show "map Path (items m') = map Path (items m)" by simp
qed

lemma list_all2_map_same: "list_all2 P xs (map k xs) \<longleftrightarrow> (\<forall>x\<in>set xs. P x (k x))"
  by (simp add: list_all2_map2 list_all2_same)

section \<open>Ignored entries under the selection operations\<close>

lemma toggle_ignored:
  fixes f :: "bool option"
  assumes wf: "wfStore (cwd m) (items m)"
  shows "\<exists>m' k. toggleSelection m p f = Some m' \<and>
      m' = m\<lparr>items := map k (items m), listItems := listItems m'\<rparr> \<and>
      (\<forall>e\<in>set (items m). k e = e\<lparr>Selected := Selected (k e)\<rparr> \<and>
         (isGitIgnored m (Path e) \<longrightarrow> k e = e))"
proof -
  from toggle_frame [OF wf, of p f] obtain m' k where
    t: "toggleSelection m p f = Some m'"
    and mk: "m' = m\<lparr>items := map k (items m), listItems := listItems m'\<rparr>"
    and k: "\<forall>e\<in>set (items m). k e = e\<lparr>Selected := Selected (k e)\<rparr> \<and>
         (k e \<noteq> e \<longrightarrow> \<not> isGitIgnored m p \<and>
            (Path e = p \<or> (prefix (p @ ''/'') (Path e) \<and> \<not> isGitIgnored m (Path e)) \<or>
             prefix (Path e @ ''/'') p))"
    by blast
  have "\<forall>e\<in>set (items m). k e = e\<lparr>Selected := Selected (k e)\<rparr> \<and>
         (isGitIgnored m (Path e) \<longrightarrow> k e = e)"
  proof
    fix e assume e: "e \<in> set (items m)"
    have "isGitIgnored m (Path e) \<longrightarrow> k e = e"
    proof (rule impI, rule ccontr)
      assume ig: "isGitIgnored m (Path e)" and ne: "k e \<noteq> e"
      from k e ne have np: "\<not> isGitIgnored m p"
        and cs: "Path e = p \<or> (prefix (p @ ''/'') (Path e) \<and> \<not> isGitIgnored m (Path e)) \<or>
             prefix (Path e @ ''/'') p" by auto
      from cs ig np have "prefix (Path e @ ''/'') p" by auto
      then have "prefix (Path e) p" by (rule append_prefixD)
      from isGitIgnored_prefix [OF this ig] np show False by simp
    qed
    with k e show "k e = e\<lparr>Selected := Selected (k e)\<rparr> \<and>
         (isGitIgnored m (Path e) \<longrightarrow> k e = e)" by simp
  qed
  with t mk show ?thesis by blast
qed

lemma frame_compose:
  assumes m1: "m1 = m\<lparr>items := map k1 (items m), listItems := l1\<rparr>"
    and k1: "\<forall>e\<in>set (items m). k1 e = e\<lparr>Selected := Selected (k1 e)\<rparr> \<and>
         (isGitIgnored m (Path e) \<longrightarrow> k1 e = e)"
    and m2: "m2 = m1\<lparr>items := map k2 (items m1), listItems := l2\<rparr>"
    and k2: "\<forall>e\<in>set (items m1). k2 e = e\<lparr>Selected := Selected (k2 e)\<rparr> \<and>
         (isGitIgnored m1 (Path e) \<longrightarrow> k2 e = e)"
  shows "m2 = m\<lparr>items := map (k2 \<circ> k1) (items m), listItems := l2\<rparr> \<and>
      (\<forall>e\<in>set (items m). (k2 \<circ> k1) e = e\<lparr>Selected := Selected ((k2 \<circ> k1) e)\<rparr> \<and>
         (isGitIgnored m (Path e) \<longrightarrow> (k2 \<circ> k1) e = e))"
proof
  show "m2 = m\<lparr>items := map (k2 \<circ> k1) (items m), listItems := l2\<rparr>"
    by (subst m2, subst m1, subst m1) simp
  have ig: "isGitIgnored m1 = isGitIgnored m"
    by (intro ext, subst m1) (simp add: isGitIgnored_def)
  show "\<forall>e\<in>set (items m). (k2 \<circ> k1) e = e\<lparr>Selected := Selected ((k2 \<circ> k1) e)\<rparr> \<and>
         (isGitIgnored m (Path e) \<longrightarrow> (k2 \<circ> k1) e = e)"
  proof
    fix e assume e: "e \<in> set (items m)"
    then have e1: "k1 e \<in> set (items m1)" by (subst m1) simp
    from k1 e have a: "k1 e = e\<lparr>Selected := Selected (k1 e)\<rparr>"
      and a': "isGitIgnored m (Path e) \<longrightarrow> k1 e = e" by auto
    from k2 e1 have b: "k2 (k1 e) = (k1 e)\<lparr>Selected := Selected (k2 (k1 e))\<rparr>"
      and b': "isGitIgnored m1 (Path (k1 e)) \<longrightarrow> k2 (k1 e) = k1 e" by auto
    from a b have "k2 (k1 e) = e\<lparr>Selected := Selected (k2 (k1 e))\<rparr>"
      by (metis (no_types, lifting) FileItem.surjective FileItem.update_convs(4))
    moreover from a' b' ig have "isGitIgnored m (Path e) \<longrightarrow> k2 (k1 e) = e" by auto
    ultimately show "(k2 \<circ> k1) e = e\<lparr>Selected := Selected ((k2 \<circ> k1) e)\<rparr> \<and>
         (isGitIgnored m (Path e) \<longrightarrow> (k2 \<circ> k1) e = e)" by simp
  qed
qed

lemma frame_id:
  "m = m\<lparr>items := map id (items m), listItems := listItems m\<rparr> \<and>
      (\<forall>e\<in>set (items m). id e = e\<lparr>Selected := Selected (id e)\<rparr> \<and>
         (isGitIgnored m (Path e) \<longrightarrow> id e = e))"
  by simp

lemma selectAllFrom_ignored:
  "wfStore (cwd m) (items m) \<Longrightarrow>
   \<exists>m' k. selectAllFrom m xs = Some m' \<and>
      m' = m\<lparr>items := map k (items m), listItems := listItems m'\<rparr> \<and>
      (\<forall>e\<in>set (items m). k e = e\<lparr>Selected := Selected (k e)\<rparr> \<and>
         (isGitIgnored m (Path e) \<longrightarrow> k e = e))"
proof (induction xs arbitrary: m)
  case Nil
  show ?case using frame_id [of m] by (intro exI [of _ m] exI [of _ id]) simp
next
  case (Cons x xs)
  show ?case
  proof (cases "isGitIgnored m (Path x)")
    case True
    with Cons.IH [OF Cons.prems] show ?thesis by simp
  next
    case False
    from toggle_ignored [OF Cons.prems, of "Path x" "Some True"] obtain m1 k1 where
      t: "toggleSelection m (Path x) (Some True) = Some m1"
      and m1: "m1 = m\<lparr>items := map k1 (items m), listItems := listItems m1\<rparr>"
      and k1: "\<forall>e\<in>set (items m). k1 e = e\<lparr>Selected := Selected (k1 e)\<rparr> \<and>
         (isGitIgnored m (Path e) \<longrightarrow> k1 e = e)" by blast
    from toggle_pres(4) [OF Cons.prems t] have wf1: "wfStore (cwd m1) (items m1)" .
    from Cons.IH [OF wf1] obtain m2 k2 where
      s: "selectAllFrom m1 xs = Some m2"
      and m2: "m2 = m1\<lparr>items := map k2 (items m1), listItems := listItems m2\<rparr>"
      and k2: "\<forall>e\<in>set (items m1). k2 e = e\<lparr>Selected := Selected (k2 e)\<rparr> \<and>
         (isGitIgnored m1 (Path e) \<longrightarrow> k2 e = e)" by blast
    from frame_compose [OF m1 k1 m2 k2] False t s show ?thesis by auto
  qed
qed

lemma selectByExtensionFrom_ignored:
  "wfStore (cwd m) (items m) \<Longrightarrow>
   \<exists>m' k. selectByExtensionFrom m ext xs = Some m' \<and>
      m' = m\<lparr>items := map k (items m), listItems := listItems m'\<rparr> \<and>
      (\<forall>e\<in>set (items m). k e = e\<lparr>Selected := Selected (k e)\<rparr> \<and>
         (isGitIgnored m (Path e) \<longrightarrow> k e = e))"
proof (induction xs arbitrary: m)
  case Nil
  show ?case using frame_id [of m] by (intro exI [of _ m] exI [of _ id]) simp
next
  case (Cons x xs)
  show ?case
  proof (cases "\<not> IsDir x \<and> suffix (ToLower ext) (ToLower (Path x))")
    case False
    with Cons.IH [OF Cons.prems] show ?thesis by auto
  next
    case True
    from toggle_ignored [OF Cons.prems, of "Path x" "Some True"] obtain m1 k1 where
      t: "toggleSelection m (Path x) (Some True) = Some m1"
      and m1: "m1 = m\<lparr>items := map k1 (items m), listItems := listItems m1\<rparr>"
      and k1: "\<forall>e\<in>set (items m). k1 e = e\<lparr>Selected := Selected (k1 e)\<rparr> \<and>
         (isGitIgnored m (Path e) \<longrightarrow> k1 e = e)" by blast
    from toggle_pres(4) [OF Cons.prems t] have wf1: "wfStore (cwd m1) (items m1)" .
    from Cons.IH [OF wf1] obtain m2 k2 where
      s: "selectByExtensionFrom m1 ext xs = Some m2"
      and m2: "m2 = m1\<lparr>items := map k2 (items m1), listItems := listItems m2\<rparr>"
      and k2: "\<forall>e\<in>set (items m1). k2 e = e\<lparr>Selected := Selected (k2 e)\<rparr> \<and>
         (isGitIgnored m1 (Path e) \<longrightarrow> k2 e = e)" by blast
    from frame_compose [OF m1 k1 m2 k2] True t s show ?thesis by auto
  qed
qed

lemma deselectAll_spec:
  assumes wf: "wfStore (cwd m) (items m)"
  shows "\<exists>m'. deselectAll m = Some m' \<and>
     m' = m\<lparr>items := map (\<lambda>it. it\<lparr>Selected := False\<rparr>) (items m), listItems := listItems m'\<rparr>"
proof -
  define m0 where "m0 = m\<lparr>items := map (\<lambda>it. it\<lparr>Selected := False\<rparr>) (items m)\<rparr>"
  have "wfStore (cwd m) (map (\<lambda>it. it\<lparr>Selected := False\<rparr>) (items m))"
    by (rule wfStore_map [OF wf]) simp
  then have wf0: "wfStore (cwd m0) (items m0)" by (simp add: m0_def)
  from refreshVisibleItems_wf [OF wf0] show ?thesis
    by (simp add: deselectAll_def m0_def)
qed

section \<open>Cascade consistency under the selection operations\<close>








section \<open>Lazy loading\<close>

lemma Rel_same: "Rel p p = Some ''.''"
  by (simp add: Rel_def Let_def)

lemma LDC_Inl:
  "readDir fs p = Inl err \<Longrightarrow>
   LoadDirectoryChildren fs p re sh = Inl (''error reading directory '' @ p @ '': '' @ err)"
  by (simp add: LoadDirectoryChildren_def)

lemma splitSep_dot: "splitSep ''.'' = [''.'']"
  by code_simp

lemma LDC_Inr:
  "readDir fs p = Inr entries \<Longrightarrow>
   LoadDirectoryChildren fs p re sh =
     Inr (concat (map (\<lambda>entry.
                if \<not> sh \<and> isHiddenFile (entName entry) then []
                else if \<not> entInfoOk entry then []
                else [\<lparr>Path = Join p (entName entry), Name = entName entry,
                       IsDir = entIsDir entry, Selected = False,
                       Depth = 1, Expanded = False,
                       GitIgnored = (case re of None \<Rightarrow> False
                                     | Some r \<Rightarrow> MatchString r (Join p (entName entry))),
                       ChildrenLoaded = False, MatchesContent = False\<rparr>]) entries))"
  by (simp add: LoadDirectoryChildren_def Rel_same Let_def splitSep_dot del: splitSep.simps
        cong: if_cong)

lemma Clean_double_slash:
  assumes "okSeg n"
  shows "Clean (''/'' @ CHR ''/'' # n) = CHR ''/'' # n"
proof -
  from assms have ns: "CHR ''/'' \<notin> set n" and ok: "n \<noteq> []" "n \<noteq> ''.''" "n \<noteq> ''..''"
    by (auto simp: okSeg_def)
  have "splitSep (''/'' @ CHR ''/'' # n) = [[], [], n]"
    using splitSep_noslash_only [OF ns] by simp
  then show ?thesis using ok by (simp add: Clean_def)
qed

lemma Join_ok:
  assumes c: "cleanAbs p" and n: "okSeg n"
  shows "Join p n = rootSlash p @ n" "cleanAbs (Join p n)" "Dir (Join p n) = p" "Join p n \<noteq> ''/''"
proof -
  from c obtain xs where p: "p = abspath xs" and ok: "\<forall>x\<in>set xs. okSeg x"
    by (rule cleanAbs_segs)
  from c have pne: "p \<noteq> []" by (simp add: cleanAbs_def)
  have ok': "\<forall>x\<in>set (xs @ [n]). okSeg x" using ok n by simp
  have j: "Join p n = abspath (xs @ [n])"
  proof (cases "xs = []")
    case True
    then have "p = ''/''" using p by (simp add: abspath_def)
    then show ?thesis using Clean_double_slash [OF n] True
      by (simp add: Join_def abspath_def)
  next
    case False
    then have "p \<noteq> ''/''" using p ok by (simp add: abspath_eq_root)
    then have "p @ CHR ''/'' # n = abspath (xs @ [n])"
      using abspath_snoc [OF ok, of n] p by (simp add: rootSlash_def)
    then show ?thesis using pne Clean_abspath [OF ok'] by (simp add: Join_def)
  qed
  show "Join p n = rootSlash p @ n" using j abspath_snoc [OF ok, of n] p by simp
  show "cleanAbs (Join p n)" using j cleanAbs_abspath [OF ok'] by simp
  show "Dir (Join p n) = p" using j Dir_abspath_snoc [OF ok n] p by simp
  show "Join p n \<noteq> ''/''" using j abspath_eq_root [OF ok'] by simp
qed

lemma LDC_children:
  assumes c: "cleanAbs p" and rd: "readDir fs p = Inr entries" and v: "validEntries entries"
  shows "\<exists>cs. LoadDirectoryChildren fs p re sh = Inr cs \<and> childrenOf p cs \<and>
     (\<forall>c\<in>set cs. \<not> Selected c \<and> Depth c = 1 \<and> \<not> Expanded c \<and> \<not> ChildrenLoaded c)"
proof -
  define keep :: "DirEntry \<Rightarrow> bool" where "keep = (\<lambda>entry. \<not> ((\<not> sh \<and> isHiddenFile (entName entry)) \<or> \<not> entInfoOk entry))"
  define mk :: "DirEntry \<Rightarrow> FileItem" where "mk = (\<lambda>entry. \<lparr>Path = Join p (entName entry), Name = entName entry,
                       IsDir = entIsDir entry, Selected = False,
                       Depth = 1, Expanded = False,
                       GitIgnored = (case re of None \<Rightarrow> False
                                     | Some r \<Rightarrow> MatchString r (Join p (entName entry))),
                       ChildrenLoaded = False, MatchesContent = False\<rparr>)"
  define cs where "cs = map mk (filter keep entries)"
  have "concat (map (\<lambda>entry. if \<not> sh \<and> isHiddenFile (entName entry) then []
                else if \<not> entInfoOk entry then [] else [mk entry]) entries) = cs"
    unfolding cs_def keep_def by (induction entries) auto
  then have l: "LoadDirectoryChildren fs p re sh = Inr cs"
    unfolding LDC_Inr [OF rd, of re sh] mk_def by simp
  have mp: "map Path cs = map (\<lambda>n. rootSlash p @ n) (map entName (filter keep entries))"
    using v Join_ok(1) [OF c] by (auto simp: cs_def mk_def validEntries_def)
  have "distinct (map entName (filter keep entries))"
    using v by (simp add: validEntries_def distinct_map_filter)
  then have d: "distinct (map Path cs)"
    unfolding mp by (simp add: distinct_map inj_on_def)
  have "\<forall>c\<in>set cs. cleanAbs (Path c) \<and> Path c \<noteq> ''/'' \<and> Dir (Path c) = p"
    using v Join_ok [OF c] by (auto simp: cs_def mk_def validEntries_def)
  with d have "childrenOf p cs" by (simp add: childrenOf_def)
  moreover have "\<forall>c\<in>set cs. \<not> Selected c \<and> Depth c = 1 \<and> \<not> Expanded c \<and> \<not> ChildrenLoaded c"
    by (auto simp: cs_def mk_def)
  ultimately show ?thesis using l by blast
qed

lemma wfStore_append:
  assumes wf: "wfStore root its" and ch: "childrenOf p new"
    and par: "p = root \<or> (\<exists>d\<in>set its. IsDir d \<and> Path d = p)"
    and dis: "\<forall>c\<in>set new. Path c \<notin> Path ` set its"
  shows "wfStore root (its @ new)"
proof -
  have "distinct (map Path (its @ new))"
    using wfStore_distinct [OF wf] ch dis by (auto simp: childrenOf_def) (metis imageI)
  moreover have "\<forall>it\<in>set (its @ new). cleanAbs (Path it) \<and> Path it \<noteq> ''/'' \<and>
        (Dir (Path it) = root \<or> (\<exists>d\<in>set (its @ new). IsDir d \<and> Path d = Dir (Path it)))"
  proof
    fix it assume "it \<in> set (its @ new)"
    then consider "it \<in> set its" | "it \<in> set new" by auto
    then show "cleanAbs (Path it) \<and> Path it \<noteq> ''/'' \<and>
        (Dir (Path it) = root \<or> (\<exists>d\<in>set (its @ new). IsDir d \<and> Path d = Dir (Path it)))"
    proof cases
      case 1
      from wfStore_D [OF wf 1] show ?thesis by auto
    next
      case 2
      with ch have "cleanAbs (Path it)" "Path it \<noteq> ''/''" "Dir (Path it) = p"
        by (auto simp: childrenOf_def)
      with par show ?thesis by auto
    qed
  qed
  ultimately show ?thesis unfolding wfStore_def by blast
qed

lemma isVisibleFrom_cong_wf:
  assumes wf: "wfStore (cwd a) (items a)" and i: "items b = items a" and c: "cwd b = cwd a"
  shows "isVisibleFrom b q = isVisibleFrom a q"
proof (induction q rule: measure_induct_rule [where f = length])
  case (less q)
  show ?case
  proof (cases "q \<noteq> cwd a \<and> q \<noteq> ''.'' \<and>
      (\<exists>d. find (\<lambda>it. Path it = q \<and> IsDir it) (items a) = Some d \<and> Expanded d)")
    case False
    then show ?thesis
      by (subst isVisibleFrom.simps, subst (2) isVisibleFrom.simps)
         (auto simp: i c split: option.splits)
  next
    case True
    then obtain d where d: "find (\<lambda>it. Path it = q \<and> IsDir it) (items a) = Some d" "Expanded d"
      by blast
    then have "d \<in> set (items a)" "Path d = q"
      by (auto simp: find_Some_iff)
    with wfStore_D [OF wf] have "cleanAbs q" "q \<noteq> ''/''" by auto
    from length_Dir [OF this] have "isVisibleFrom b (Dir q) = isVisibleFrom a (Dir q)"
      by (rule less.IH)
    with True d show ?thesis
      by (subst isVisibleFrom.simps, subst (2) isVisibleFrom.simps) (simp add: i c)
  qed
qed

lemma isVisible_cong_wf:
  assumes "wfStore (cwd a) (items a)" "items b = items a" "cwd b = cwd a"
  shows "isVisible b = isVisible a"
  using isVisibleFrom_cong_wf [OF assms] by (intro ext) (simp add: isVisible_def)

lemma markLoaded_map:
  assumes d: "distinct (map Path its)"
  shows "(case findIdx (\<lambda>it. Path it = p) its of
            None \<Rightarrow> m
          | Some i \<Rightarrow> m\<lparr>items := its[i := (its ! i)\<lparr>ChildrenLoaded := True\<rparr>]\<rparr>) =
         (if p \<in> Path ` set its
          then m\<lparr>items := map (\<lambda>e. if Path e = p then e\<lparr>ChildrenLoaded := True\<rparr> else e) its\<rparr>
          else m)"
proof (cases "findIdx (\<lambda>it. Path it = p) its")
  case None
  then have "p \<notin> Path ` set its" by (auto simp: findIdx_None)
  with None show ?thesis by simp
next
  case (Some i)
  from findIdx_Some [OF Some] have il: "i < length its" and ip: "Path (its ! i) = p" by auto
  then have "p \<in> Path ` set its" by (metis imageI nth_mem)
  moreover have "its[i := (its ! i)\<lparr>ChildrenLoaded := True\<rparr>] =
      map (\<lambda>e. if Path e = p then e\<lparr>ChildrenLoaded := True\<rparr> else e) its"
    using list_update_Path_map [OF d il, of "\<lambda>e. e\<lparr>ChildrenLoaded := True\<rparr>"] ip by simp
  ultimately show ?thesis using Some by simp
qed

lemma merge_spec:
  assumes wf: "wfStore (cwd m) (items m)"
    and par: "\<exists>d\<in>set (items m). IsDir d \<and> Path d = p"
    and ch: "childrenOf p cs"
  shows "\<exists>m'. Update m (ChildrenLoadedMsg p cs) = Some m' \<and>
      items m' = map (\<lambda>e. if Path e = p then e\<lparr>ChildrenLoaded := True\<rparr> else e) (items m) @
                 filter (\<lambda>c. Path c \<notin> Path ` set (items m)) cs \<and>
      wfStore (cwd m') (items m') \<and>
      listItems m' = filter (\<lambda>e. isVisible m' e = Some True) (items m') \<and>
      \<not> isLoading m' \<and>
      m' = m\<lparr>items := items m', listItems := listItems m', isLoading := False\<rparr>"
proof -
  define k :: "FileItem \<Rightarrow> FileItem" where
    "k = (\<lambda>e. if Path e = p then e\<lparr>ChildrenLoaded := True\<rparr> else e)"
  define new where "new = filter (\<lambda>c. Path c \<notin> Path ` set (items m)) cs"
  define m2 where "m2 = m\<lparr>items := map k (items m) @ new, isLoading := False\<rparr>"
  from par have pin: "p \<in> Path ` set (items m)" by (auto simp: image_iff)
  have kP: "\<forall>e\<in>set (items m). Path (k e) = Path e \<and> IsDir (k e) = IsDir e"
    by (simp add: k_def)
  have mp: "map Path (map k (items m)) = map Path (items m)"
    using kP by (intro map_Path_map) simp
  then have sp: "Path ` set (map k (items m)) = Path ` set (items m)"
    by (metis set_map)
  have wfk: "wfStore (cwd m) (map k (items m))" by (rule wfStore_map [OF wf kP])
  have chn: "childrenOf p new"
    using ch by (auto simp: childrenOf_def new_def distinct_map_filter)
  have park: "p = cwd m \<or> (\<exists>d\<in>set (map k (items m)). IsDir d \<and> Path d = p)"
  proof -
    from par obtain d where "d \<in> set (items m)" "IsDir d" "Path d = p" by blast
    with kP have "k d \<in> set (map k (items m))" "IsDir (k d)" "Path (k d) = p" by auto
    then show ?thesis by blast
  qed
  have dis: "\<forall>c\<in>set new. Path c \<notin> Path ` set (map k (items m))"
    unfolding sp by (simp add: new_def)
  have wf2: "wfStore (cwd m2) (items m2)"
    using wfStore_append [OF wfk chn park dis] by (simp add: m2_def)
  have u: "Update m (ChildrenLoadedMsg p cs) = refreshVisibleItems m2"
  proof -
    have "(case findIdx (\<lambda>it. Path it = p) (items m) of
            None \<Rightarrow> m
          | Some i \<Rightarrow> m\<lparr>items := (items m)[i := (items m ! i)\<lparr>ChildrenLoaded := True\<rparr>]\<rparr>) =
          m\<lparr>items := map k (items m)\<rparr>"
      using markLoaded_map [OF wfStore_distinct [OF wf], where p = p and m = m] pin
      by (simp add: k_def)
    then show ?thesis
      using sp by (simp add: Let_def m2_def new_def del: map_map)
  qed
  define m' where "m' = m2\<lparr>listItems := filter (\<lambda>e. isVisible m2 e = Some True) (items m2)\<rparr>"
  have r: "refreshVisibleItems m2 = Some m'"
    using refreshVisibleItems_wf [OF wf2] by (simp add: m'_def)
  have im: "items m' = items m2" "cwd m' = cwd m2" by (simp_all add: m'_def)
  have vis: "isVisible m' = isVisible m2" by (rule isVisible_cong_wf [OF wf2 im])
  have a: "items m' = map (\<lambda>e. if Path e = p then e\<lparr>ChildrenLoaded := True\<rparr> else e) (items m) @
                 filter (\<lambda>c. Path c \<notin> Path ` set (items m)) cs"
    by (simp add: m'_def m2_def k_def new_def)
  have b: "wfStore (cwd m') (items m')" using wf2 im by simp
  have c: "listItems m' = filter (\<lambda>e. isVisible m' e = Some True) (items m')"
    unfolding vis by (simp add: m'_def)
  have d: "\<not> isLoading m'" by (simp add: m'_def m2_def)
  have e: "m' = m\<lparr>items := items m', listItems := listItems m', isLoading := False\<rparr>"
    by (simp add: m'_def m2_def)
  have f: "Update m (ChildrenLoadedMsg p cs) = Some m'" using u r by simp
  show ?thesis
    by (rule exI [of _ m']) (rule conjI [OF f conjI [OF a conjI [OF b conjI [OF c conjI [OF d e]]]]])
qed

lemma toggleExpansion_spec:
  assumes wf: "wfStore (cwd m) (items m)" and d: "d \<in> set (items m)" "Path d = p" "IsDir d"
  shows "\<exists>m'. toggleExpansion m p =
        Some (m', if \<not> Expanded d \<and> \<not> ChildrenLoaded d then Some (LoadChildrenCmd p) else None) \<and>
      items m' = map (\<lambda>e. if Path e = p then e\<lparr>Expanded := \<not> Expanded e\<rparr> else e) (items m) \<and>
      wfStore (cwd m') (items m') \<and> cwd m' = cwd m \<and> gitignoreRegexp m' = gitignoreRegexp m \<and>
      showHiddenFiles m' = showHiddenFiles m \<and> errors m' = errors m"
proof -
  from findIdx_ex [of d "items m" "\<lambda>it. Path it = p"] d
  obtain i where i: "findIdx (\<lambda>it. Path it = p) (items m) = Some i" by auto
  from findIdx_Some [OF i] have il: "i < length (items m)" and ip: "Path (items m ! i) = p" by auto
  have ci: "items m ! i = d" using wfStore_eq [OF wf _ d(1)] il ip d(2) by simp
  define b where "b = (\<not> Expanded d)"
  define it' where "it' = d\<lparr>Expanded := b\<rparr>"
  define k :: "FileItem \<Rightarrow> FileItem" where
    "k = (\<lambda>e. if Path e = p then e\<lparr>Expanded := b\<rparr> else e)"
  have upd: "(items m)[i := it'] = map k (items m)"
    using list_update_Path_map [OF wfStore_distinct [OF wf] il, of "\<lambda>e. e\<lparr>Expanded := b\<rparr>"]
      ci ip by (simp add: k_def it'_def)
  define load where "load = (Expanded it' \<and> \<not> ChildrenLoaded it')"
  define m1 where "m1 = m\<lparr>items := map k (items m)\<rparr>"
  define m2 where "m2 = (if load
       then m1\<lparr>isLoading := True, loadingMessage := ''Loading directory...''\<rparr>
       else m1)"
  have kP: "\<forall>e\<in>set (items m). Path (k e) = Path e \<and> IsDir (k e) = IsDir e"
    by (simp add: k_def)
  have wf2: "wfStore (cwd m2) (items m2)"
    using wfStore_map [OF wf kP] by (simp add: m2_def m1_def)
  have "toggleExpansion m p =
     (let it'' = (items m ! i)\<lparr>Expanded := \<not> Expanded (items m ! i)\<rparr>;
                 m1' = m\<lparr>items := (items m)[i := it'']\<rparr>;
                 load' = (Expanded it'' \<and> \<not> ChildrenLoaded it'');
                 m2' = (if load'
                       then m1'\<lparr>isLoading := True, loadingMessage := ''Loading directory...''\<rparr>
                       else m1')
             in case refreshVisibleItems m2' of
                  None \<Rightarrow> None
                | Some m3 \<Rightarrow> Some (m3, if load' then Some (LoadChildrenCmd p) else None))"
    using d(3) ci by (simp add: toggleExpansion_def i)
  also have "\<dots> = (case refreshVisibleItems m2 of None \<Rightarrow> None
      | Some m3 \<Rightarrow> Some (m3, if load then Some (LoadChildrenCmd p) else None))"
    unfolding Let_def ci b_def [symmetric] it'_def [symmetric] upd load_def [symmetric]
      m1_def [symmetric] m2_def [symmetric] ..
  finally have t: "toggleExpansion m p =
      Some (m2\<lparr>listItems := filter (\<lambda>e. isVisible m2 e = Some True) (items m2)\<rparr>,
            if load then Some (LoadChildrenCmd p) else None)"
    using refreshVisibleItems_wf [OF wf2] by simp
  have l: "load \<longleftrightarrow> \<not> Expanded d \<and> \<not> ChildrenLoaded d"
    by (simp add: load_def it'_def b_def)
  have "map k (items m) =
      map (\<lambda>e. if Path e = p then e\<lparr>Expanded := \<not> Expanded e\<rparr> else e) (items m)"
  proof (rule map_cong [OF refl])
    fix e assume e: "e \<in> set (items m)"
    show "k e = (if Path e = p then e\<lparr>Expanded := \<not> Expanded e\<rparr> else e)"
    proof (cases "Path e = p")
      case True
      with wfStore_eq [OF wf e d(1)] d(2) have "e = d" by simp
      with True show ?thesis by (simp add: k_def b_def)
    next
      case False
      then show ?thesis by (simp add: k_def)
    qed
  qed
  then have im: "items m2 =
      map (\<lambda>e. if Path e = p then e\<lparr>Expanded := \<not> Expanded e\<rparr> else e) (items m)"
    by (simp add: m2_def m1_def)
  have rest: "cwd m2 = cwd m" "gitignoreRegexp m2 = gitignoreRegexp m"
    "showHiddenFiles m2 = showHiddenFiles m" "errors m2 = errors m"
    by (simp_all add: m2_def m1_def)
  define m' where "m' = m2\<lparr>listItems := filter (\<lambda>e. isVisible m2 e = Some True) (items m2)\<rparr>"
  have a: "toggleExpansion m p =
        Some (m', if \<not> Expanded d \<and> \<not> ChildrenLoaded d then Some (LoadChildrenCmd p) else None)"
    using t l by (simp add: m'_def)
  have b': "items m' = items m2" "cwd m' = cwd m2" "gitignoreRegexp m' = gitignoreRegexp m2"
    "showHiddenFiles m' = showHiddenFiles m2" "errors m' = errors m2"
    by (simp_all add: m'_def)
  have w: "wfStore (cwd m') (items m')" using wf2 b' by simp
  have i': "items m' =
      map (\<lambda>e. if Path e = p then e\<lparr>Expanded := \<not> Expanded e\<rparr> else e) (items m)"
    using b' im by simp
  have r': "cwd m' = cwd m" "gitignoreRegexp m' = gitignoreRegexp m"
    "showHiddenFiles m' = showHiddenFiles m" "errors m' = errors m"
    using b' rest by simp_all
  from a i' w r' show ?thesis by blast
qed

lemma toggleExpansion_expand:
  assumes wf: "wfStore (cwd m) (items m)" and d: "d \<in> set (items m)" "Path d = p" "IsDir d"
    and c: "\<not> Expanded d" "\<not> ChildrenLoaded d"
  shows "\<exists>m'. toggleExpansion m p = Some (m', Some (LoadChildrenCmd p)) \<and>
      items m' = map (\<lambda>e. if Path e = p then e\<lparr>Expanded := \<not> Expanded e\<rparr> else e) (items m) \<and>
      wfStore (cwd m') (items m') \<and> errors m' = errors m"
proof -
  from toggleExpansion_spec [OF wf d] obtain m' where
    a: "toggleExpansion m p =
        Some (m', if \<not> Expanded d \<and> \<not> ChildrenLoaded d then Some (LoadChildrenCmd p) else None)"
    and b: "items m' = map (\<lambda>e. if Path e = p then e\<lparr>Expanded := \<not> Expanded e\<rparr> else e) (items m)"
    and w: "wfStore (cwd m') (items m')" and e: "errors m' = errors m" by blast
  from a c have a': "toggleExpansion m p = Some (m', Some (LoadChildrenCmd p))" by simp
  show ?thesis by (rule exI [of _ m']) (rule conjI [OF a' conjI [OF b conjI [OF w e]]])
qed

lemma toggleExpansion_collapse:
  assumes wf: "wfStore (cwd m) (items m)" and d: "d \<in> set (items m)" "Path d = p" "IsDir d"
    and c: "Expanded d"
  shows "\<exists>m'. toggleExpansion m p = Some (m', None) \<and>
      items m' = map (\<lambda>e. if Path e = p then e\<lparr>Expanded := \<not> Expanded e\<rparr> else e) (items m) \<and>
      wfStore (cwd m') (items m')"
proof -
  from toggleExpansion_spec [OF wf d] obtain m' where
    a: "toggleExpansion m p =
        Some (m', if \<not> Expanded d \<and> \<not> ChildrenLoaded d then Some (LoadChildrenCmd p) else None)"
    and b: "items m' = map (\<lambda>e. if Path e = p then e\<lparr>Expanded := \<not> Expanded e\<rparr> else e) (items m)"
    and w: "wfStore (cwd m') (items m')" by blast
  from a c have a': "toggleExpansion m p = Some (m', None)" by simp
  show ?thesis by (rule exI [of _ m']) (rule conjI [OF a' conjI [OF b w]])
qed

lemma flip_in:
  assumes "d \<in> set its" "Path d = p"
    and "its' = map (\<lambda>e. if Path e = p then e\<lparr>Expanded := \<not> Expanded e\<rparr> else e) its"
  shows "d\<lparr>Expanded := \<not> Expanded d\<rparr> \<in> set its'"
proof -
  have "(\<lambda>e. if Path e = p then e\<lparr>Expanded := \<not> Expanded e\<rparr> else e) d \<in>
      (\<lambda>e. if Path e = p then e\<lparr>Expanded := \<not> Expanded e\<rparr> else e) ` set its"
    using assms(1) by (rule imageI)
  then show ?thesis using assms(2,3) by simp
qed

section \<open>The exact pass of \<open>executeCustomSearch\<close>\<close>

lemma top_no_anc_tree:
  assumes ts: "treeStore root its" and d: "d \<in> set its"
    and q: "cleanAbs q" "prefix (rootSlash root) q" "q \<noteq> root" and top: "Dir q = root"
  shows "\<not> prefix (Path d @ ''/'') q"
proof
  assume a: "prefix (Path d @ ''/'') q"
  from treeStore_D [OF ts d] have cr: "cleanAbs root" and u: "prefix (rootSlash root) (Path d)"
    and ne: "Path d \<noteq> root" by auto
  from anc_step [OF cr q u ne] a top have "Path d = root \<or> prefix (Path d @ ''/'') root" by simp
  with ne under_not_above [OF u] show False by simp
qed

lemma addParentDirs_tree:
  "treeStore root its \<Longrightarrow> cleanAbs q \<Longrightarrow> prefix (rootSlash root) q \<Longrightarrow> q \<noteq> root \<Longrightarrow>
   set (snd st) = Path ` set (fst st) \<Longrightarrow>
   \<exists>st'. addParentDirs q root its st = Some st' \<and>
     set (snd st') = Path ` set (fst st') \<and>
     Path ` set (fst st') =
       Path ` set (fst st) \<union> Path ` {d \<in> set its. IsDir d \<and> prefix (Path d @ ''/'') q} \<and>
     set (fst st') \<subseteq> set (fst st) \<union> set its \<and>
     (distinct (map Path (fst st)) \<longrightarrow> distinct (map Path (fst st')))"
proof (induction q rule: measure_induct_rule [where f = length])
  case (less q)
  note ts = less.prems(1) and cq = less.prems(2) and uq = less.prems(3) and ne = less.prems(4)
    and inv = less.prems(5)
  from ts have cr: "cleanAbs root" by (simp add: treeStore_def)
  from below_ne_slash [OF cr uq ne] have qs: "q \<noteq> ''/''" .
  show ?case
  proof (cases "Dir q = root")
    case True
    have a: "addParentDirs q root its st = Some st"
      by (subst addParentDirs.simps) (simp add: True)
    have e: "{d \<in> set its. IsDir d \<and> prefix (Path d @ ''/'') q} = {}"
      using top_no_anc_tree [OF ts _ cq uq ne True] by auto
    have b: "Path ` set (fst st) =
       Path ` set (fst st) \<union> Path ` {d \<in> set its. IsDir d \<and> prefix (Path d @ ''/'') q}"
      unfolding e by simp
    have s: "set (fst st) \<subseteq> set (fst st) \<union> set its" by simp
    have dd: "distinct (map Path (fst st)) \<longrightarrow> distinct (map Path (fst st))" by simp
    show ?thesis
      by (rule exI [of _ st]) (rule conjI [OF a conjI [OF inv conjI [OF b conjI [OF s dd]]]])
  next
    case False
    define pp where "pp = Dir q"
    from below_Dir [OF cr cq uq ne] False
    have up: "prefix (rootSlash root) pp" and pne: "pp \<noteq> root" by (simp_all add: pp_def)
    from cleanAbs_Dir [OF cq qs] have cp: "cleanAbs pp" by (simp add: pp_def)
    then have ppdot: "pp \<noteq> ''.''" by (auto simp: cleanAbs_def)
    have lt: "length pp < length q" unfolding pp_def by (rule length_Dir [OF cq qs])
    from less.IH [OF lt ts cp up pne inv] obtain st1 where
      r1: "addParentDirs pp root its st = Some st1"
      and inv1: "set (snd st1) = Path ` set (fst st1)"
      and p1: "Path ` set (fst st1) =
         Path ` set (fst st) \<union> Path ` {d \<in> set its. IsDir d \<and> prefix (Path d @ ''/'') pp}"
      and s1: "set (fst st1) \<subseteq> set (fst st) \<union> set its"
      and d1: "distinct (map Path (fst st)) \<longrightarrow> distinct (map Path (fst st1))" by blast
    define self where "self = Path ` {d \<in> set its. IsDir d \<and> Path d = pp}"
    have ancx: "Path ` {d \<in> set its. IsDir d \<and> prefix (Path d @ ''/'') q} =
        self \<union> Path ` {d \<in> set its. IsDir d \<and> prefix (Path d @ ''/'') pp}"
    proof -
      have "\<And>d. d \<in> set its \<Longrightarrow>
          prefix (Path d @ ''/'') q \<longleftrightarrow> Path d = pp \<or> prefix (Path d @ ''/'') pp"
        using anc_step [OF cr cq uq ne] treeStore_D(2,3) [OF ts] by (simp add: pp_def)
      then have "{d \<in> set its. IsDir d \<and> prefix (Path d @ ''/'') q} =
          {d \<in> set its. IsDir d \<and> Path d = pp} \<union> {d \<in> set its. IsDir d \<and> prefix (Path d @ ''/'') pp}"
        by auto
      then show ?thesis by (simp add: image_Un self_def)
    qed
    have selfsub: "self \<subseteq> {pp}" by (auto simp: self_def)
    define st' where "st' =
      (if pp \<notin> set (snd st1) then
         (case find (\<lambda>item. Path item = pp \<and> IsDir item) its of
            None \<Rightarrow> st1 | Some item \<Rightarrow> (fst st1 @ [item], pp # snd st1))
       else st1)"
    have a: "addParentDirs q root its st = Some st'"
      using False ppdot r1
      by (subst addParentDirs.simps)
         (simp add: pp_def [symmetric] st'_def Let_def split: option.splits)
    have p1': "Path ` set (fst st') = self \<union> Path ` set (fst st1) \<and>
        set (snd st') = Path ` set (fst st') \<and> set (fst st') \<subseteq> set (fst st) \<union> set its \<and>
        (distinct (map Path (fst st)) \<longrightarrow> distinct (map Path (fst st')))"
    proof (cases "pp \<in> set (snd st1)")
      case True
      then have "pp \<in> Path ` set (fst st1)" using inv1 by simp
      with selfsub have "self \<union> Path ` set (fst st1) = Path ` set (fst st1)" by blast
      moreover have "st' = st1" using True by (simp add: st'_def)
      ultimately show ?thesis using inv1 s1 d1 by simp
    next
      case nin: False
      show ?thesis
      proof (cases "find (\<lambda>item. Path item = pp \<and> IsDir item) its")
        case None
        then have "self = {}" by (auto simp: self_def find_None_iff)
        moreover have "st' = st1" using nin None by (simp add: st'_def)
        ultimately show ?thesis using inv1 s1 d1 by simp
      next
        case (Some dp)
        then have dp: "dp \<in> set its" "Path dp = pp" "IsDir dp"
          by (auto simp: find_Some_iff in_set_conv_nth)
        then have "self = {pp}" by (auto simp: self_def)
        moreover have "st' = (fst st1 @ [dp], pp # snd st1)" using nin Some by (simp add: st'_def)
        ultimately show ?thesis using inv1 s1 d1 dp nin by auto
      qed
    qed
    have b: "Path ` set (fst st') =
       Path ` set (fst st) \<union> Path ` {d \<in> set its. IsDir d \<and> prefix (Path d @ ''/'') q}"
    proof -
      from p1' have "Path ` set (fst st') = self \<union> Path ` set (fst st1)" by simp
      also have "\<dots> = self \<union> (Path ` set (fst st) \<union>
          Path ` {d \<in> set its. IsDir d \<and> prefix (Path d @ ''/'') pp})" by (simp only: p1)
      also have "\<dots> = Path ` set (fst st) \<union>
          (self \<union> Path ` {d \<in> set its. IsDir d \<and> prefix (Path d @ ''/'') pp})" by blast
      finally show ?thesis by (simp only: ancx)
    qed
    from p1' have inv': "set (snd st') = Path ` set (fst st')"
      and s: "set (fst st') \<subseteq> set (fst st) \<union> set its"
      and dd: "distinct (map Path (fst st)) \<longrightarrow> distinct (map Path (fst st'))" by simp_all
    show ?thesis
      by (rule exI [of _ st']) (rule conjI [OF a conjI [OF inv' conjI [OF b conjI [OF s dd]]]])
  qed
qed

lemma add_one_spec:
  assumes ts: "treeStore root its" and x: "x \<in> set its" and inv: "resInv its st"
    and nx: "Path x \<notin> set (snd st)"
  shows "\<exists>st'. addParentDirs (Path x) root its (fst st @ [x], Path x # snd st) = Some st' \<and>
     resInv its st' \<and>
     Path ` set (fst st') =
       Path ` set (fst st) \<union>
       insert (Path x) (Path ` {d \<in> set its. IsDir d \<and> prefix (Path d @ ''/'') (Path x)})"
proof -
  define st0 where "st0 = (fst st @ [x], Path x # snd st)"
  from inv have i1: "set (snd st) = Path ` set (fst st)" and i2: "set (fst st) \<subseteq> set its"
    and i3: "distinct (map Path (fst st))"
    and i4: "\<forall>e\<in>set its. Path e \<in> Path ` set (fst st) \<longrightarrow>
        (\<forall>d\<in>set its. IsDir d \<and> prefix (Path d @ ''/'') (Path e) \<longrightarrow>
           Path d \<in> Path ` set (fst st))"
    by (simp_all add: resInv_def)
  have inv0: "set (snd st0) = Path ` set (fst st0)" using i1 by (simp add: st0_def)
  have d0: "distinct (map Path (fst st0))" using i3 nx i1 by (simp add: st0_def)
  from addParentDirs_tree [OF ts treeStore_D(1,2,3) [OF ts x] inv0] d0 obtain st' where
    r: "addParentDirs (Path x) root its st0 = Some st'"
    and a: "set (snd st') = Path ` set (fst st')"
    and b: "Path ` set (fst st') =
       Path ` set (fst st0) \<union> Path ` {d \<in> set its. IsDir d \<and> prefix (Path d @ ''/'') (Path x)}"
    and c: "set (fst st') \<subseteq> set (fst st0) \<union> set its"
    and d: "distinct (map Path (fst st'))" by blast
  have p0: "Path ` set (fst st0) = insert (Path x) (Path ` set (fst st))"
    by (simp add: st0_def)
  have b': "Path ` set (fst st') =
       Path ` set (fst st) \<union>
       insert (Path x) (Path ` {d \<in> set its. IsDir d \<and> prefix (Path d @ ''/'') (Path x)})"
    unfolding b p0 by blast
  have c': "set (fst st') \<subseteq> set its" using c i2 x by (auto simp: st0_def)
  have cl: "\<forall>e\<in>set its. Path e \<in> Path ` set (fst st') \<longrightarrow>
        (\<forall>d\<in>set its. IsDir d \<and> prefix (Path d @ ''/'') (Path e) \<longrightarrow>
           Path d \<in> Path ` set (fst st'))"
  proof (intro ballI impI)
    fix e d assume e: "e \<in> set its" and pe: "Path e \<in> Path ` set (fst st')"
      and dd: "d \<in> set its" and anc: "IsDir d \<and> prefix (Path d @ ''/'') (Path e)"
    from pe b' consider "Path e \<in> Path ` set (fst st)" | "Path e = Path x"
      | "Path e \<in> Path ` {d \<in> set its. IsDir d \<and> prefix (Path d @ ''/'') (Path x)}" by blast
    then show "Path d \<in> Path ` set (fst st')"
    proof cases
      case 1
      with i4 e dd anc have "Path d \<in> Path ` set (fst st)" by blast
      then show ?thesis unfolding b' by blast
    next
      case 2
      with anc dd have "Path d \<in> Path ` {d \<in> set its. IsDir d \<and> prefix (Path d @ ''/'') (Path x)}"
        by auto
      then show ?thesis unfolding b' by blast
    next
      case 3
      then obtain d' where d': "d' \<in> set its" "prefix (Path d' @ ''/'') (Path x)"
        "Path e = Path d'" by auto
      from anc d'(3) d'(2) have "prefix (Path d @ ''/'') (Path x)" by (auto intro: anc_trans)
      with dd anc have "Path d \<in> Path ` {d \<in> set its. IsDir d \<and> prefix (Path d @ ''/'') (Path x)}"
        by auto
      then show ?thesis unfolding b' by blast
    qed
  qed
  have "resInv its st'" unfolding resInv_def using a c' d cl by blast
  with r b' show ?thesis unfolding st0_def by blast
qed

lemma exactLoop_spec:
  "treeStore (cwd m) (items m) \<Longrightarrow> set ms \<subseteq> set (items m) \<Longrightarrow> resInv (items m) st \<Longrightarrow>
   \<exists>st'. exactLoop m ms st = Some st' \<and> resInv (items m) st' \<and>
     Path ` set (fst st') =
       Path ` set (fst st) \<union> Path ` set ms \<union>
       Path ` {d \<in> set (items m). IsDir d \<and> (\<exists>x\<in>set ms. prefix (Path d @ ''/'') (Path x))}"
proof (induction ms arbitrary: st)
  case Nil
  then show ?case by simp
next
  case (Cons x ms)
  note ts = Cons.prems(1) and sub = Cons.prems(2) and inv = Cons.prems(3)
  from sub have x: "x \<in> set (items m)" and sub': "set ms \<subseteq> set (items m)" by auto
  have split: "Path ` {d \<in> set (items m). IsDir d \<and> (\<exists>y\<in>set (x # ms). prefix (Path d @ ''/'') (Path y))} =
      Path ` {d \<in> set (items m). IsDir d \<and> prefix (Path d @ ''/'') (Path x)} \<union>
      Path ` {d \<in> set (items m). IsDir d \<and> (\<exists>y\<in>set ms. prefix (Path d @ ''/'') (Path y))}"
    by auto
  show ?case
  proof (cases "Path x \<in> set (snd st)")
    case True
    from Cons.IH [OF ts sub' inv] obtain st' where
      r: "exactLoop m ms st = Some st'" and i: "resInv (items m) st'"
      and p: "Path ` set (fst st') =
       Path ` set (fst st) \<union> Path ` set ms \<union>
       Path ` {d \<in> set (items m). IsDir d \<and> (\<exists>x\<in>set ms. prefix (Path d @ ''/'') (Path x))}" by blast
    from inv True have px: "Path x \<in> Path ` set (fst st)" by (simp add: resInv_def)
    with inv x have "Path ` {d \<in> set (items m). IsDir d \<and> prefix (Path d @ ''/'') (Path x)} \<subseteq>
        Path ` set (fst st)" unfolding resInv_def by blast
    with px have "Path ` set (fst st') =
       Path ` set (fst st) \<union> Path ` set (x # ms) \<union>
       Path ` {d \<in> set (items m). IsDir d \<and> (\<exists>y\<in>set (x # ms). prefix (Path d @ ''/'') (Path y))}"
      unfolding split p by auto
    with r i True show ?thesis by simp
  next
    case False
    from add_one_spec [OF ts x inv False] obtain st1 where
      r1: "addParentDirs (Path x) (cwd m) (items m) (fst st @ [x], Path x # snd st) = Some st1"
      and i1: "resInv (items m) st1"
      and p1: "Path ` set (fst st1) =
       Path ` set (fst st) \<union> insert (Path x)
         (Path ` {d \<in> set (items m). IsDir d \<and> prefix (Path d @ ''/'') (Path x)})" by blast
    from Cons.IH [OF ts sub' i1] obtain st' where
      r: "exactLoop m ms st1 = Some st'" and i: "resInv (items m) st'"
      and p: "Path ` set (fst st') =
       Path ` set (fst st1) \<union> Path ` set ms \<union>
       Path ` {d \<in> set (items m). IsDir d \<and> (\<exists>x\<in>set ms. prefix (Path d @ ''/'') (Path x))}" by blast
    have "Path ` set (fst st') =
       Path ` set (fst st) \<union> Path ` set (x # ms) \<union>
       Path ` {d \<in> set (items m). IsDir d \<and> (\<exists>y\<in>set (x # ms). prefix (Path d @ ''/'') (Path y))}"
      unfolding split p p1 by auto
    with r r1 i False show ?thesis by simp
  qed
qed

lemma exactLoop_start:
  assumes ts: "treeStore (cwd m) (items m)"
  shows "\<exists>st. exactLoop m (filter P (items m)) ([], []) = Some st \<and> resInv (items m) st \<and>
     Path ` set (fst st) =
       Path ` set (filter P (items m)) \<union>
       Path ` {d \<in> set (items m). IsDir d \<and>
                 (\<exists>x\<in>set (filter P (items m)). prefix (Path d @ ''/'') (Path x))}"
proof -
  have i0: "resInv (items m) ([], [])" by (simp add: resInv_def)
  have sub: "set (filter P (items m)) \<subseteq> set (items m)" by simp
  from exactLoop_spec [OF ts sub i0] show ?thesis by simp
qed


lemma exact_or_above:
  "set (filter P its) \<union>
       {d \<in> set its. IsDir d \<and> (\<exists>x\<in>set (filter P its). prefix (Path d @ ''/'') (Path x))} =
   {e \<in> set its. P e \<or> (IsDir e \<and> (\<exists>x\<in>set its. P x \<and> prefix (Path e @ ''/'') (Path x)))}"
  by auto

lemma exactPass_spec:
  assumes ts: "treeStore (cwd m) (items m)"
  shows "\<exists>st. exactLoop m (filter P (items m)) ([], []) = Some st \<and>
     distinct (map Path (fst st)) \<and>
     (\<forall>e. e \<in> set (fst st) \<longleftrightarrow>
        e \<in> set (items m) \<and>
        (P e \<or> (IsDir e \<and> (\<exists>x\<in>set (items m). P x \<and> prefix (Path e @ ''/'') (Path x)))))"
proof -
  define Q where "Q = (\<lambda>e. P e \<or> (IsDir e \<and> (\<exists>x\<in>set (items m). P x \<and> prefix (Path e @ ''/'') (Path x))))"
  from exactLoop_start [OF ts, of P] obtain st where
    r: "exactLoop m (filter P (items m)) ([], []) = Some st" and i: "resInv (items m) st"
    and p: "Path ` set (fst st) =
       Path ` set (filter P (items m)) \<union>
       Path ` {d \<in> set (items m). IsDir d \<and>
                 (\<exists>x\<in>set (filter P (items m)). prefix (Path d @ ''/'') (Path x))}"
    by (elim exE conjE)
  have p': "Path ` set (fst st) = Path ` {e \<in> set (items m). Q e}"
    unfolding p image_Un [symmetric] exact_or_above Q_def ..
  from i have d: "distinct (map Path (fst st))" and s: "set (fst st) \<subseteq> set (items m)"
    by (simp_all add: resInv_def)
  have c: "\<forall>e. e \<in> set (fst st) \<longleftrightarrow> e \<in> set (items m) \<and> Q e"
  proof (intro allI iffI)
    fix e assume e: "e \<in> set (fst st)"
    with s have ei: "e \<in> set (items m)" by auto
    from e have "Path e \<in> Path ` set (fst st)" by (rule imageI)
    then have "Path e \<in> Path ` {e \<in> set (items m). Q e}" by (simp only: p')
    then obtain e' where e': "e' \<in> set (items m)" "Path e' = Path e" "Q e'" by auto
    from treeStore_eq [OF ts e'(1) ei e'(2)] e'(3) ei
    show "e \<in> set (items m) \<and> Q e" by simp
  next
    fix e assume a: "e \<in> set (items m) \<and> Q e"
    then have ei: "e \<in> set (items m)" by simp
    from a have "e \<in> {e \<in> set (items m). Q e}" by simp
    then have "Path e \<in> Path ` {e \<in> set (items m). Q e}" by (rule imageI)
    then have "Path e \<in> Path ` set (fst st)" by (simp only: p')
    then obtain e' where e': "e' \<in> set (fst st)" "Path e' = Path e" by auto
    with s have "e' \<in> set (items m)" by auto
    from treeStore_eq [OF ts this ei e'(2)] e'(1) show "e \<in> set (fst st)" by simp
  qed
  note c' = c [unfolded Q_def]
  show ?thesis by (rule exI [of _ st]) (rule conjI [OF r conjI [OF d c']])
qed

lemma treeStore_map:
  assumes "treeStore root its" "\<forall>e\<in>set its. Path (k e) = Path e"
  shows "treeStore root (map k its)"
proof -
  have mp: "map Path (map k its) = map Path its" by (rule map_Path_map [OF assms(2)])
  show ?thesis using assms unfolding treeStore_def mp by auto
qed

lemma sort_key_Path:
  assumes "distinct (map Path xs)"
  shows "sorted (map Path (sort_key Path xs))" "distinct (map Path (sort_key Path xs))"
    "set (sort_key Path xs) = set xs"
proof -
  show "sorted (map Path (sort_key Path xs))" by (rule sorted_sort_key)
  show s: "set (sort_key Path xs) = set xs" by simp
  from assms have "distinct xs" "inj_on Path (set xs)" by (simp_all add: distinct_map)
  then show "distinct (map Path (sort_key Path xs))" by (simp add: distinct_map)
qed




text \<open>
  Claim C2, as amended. Expanding a collapsed, unloaded directory of the store issues the
  load command. When the directory cannot be read, the command produces an error message;
  \<open>Update\<close> appends the error text to the error list, shows the errors and clears the
  loading flag, and changes nothing else: no entry is added, and the directory's
  \<open>childrenLoaded\<close> flag stays false. Collapsing the directory and expanding it again
  therefore issues the load command again.
\<close>

theorem C2_load_failure_amended:
  assumes wf: "wfStore (cwd m) (items m)"
    and d: "d \<in> set (items m)" "Path d = p" "IsDir d" "\<not> Expanded d" "\<not> ChildrenLoaded d"
    and rd: "readDir fs p = Inl e"
  shows "\<exists>m1 err m2 m3 m4.
      toggleExpansion m p = Some (m1, Some (LoadChildrenCmd p)) \<and>
      runCmd fs m1 (LoadChildrenCmd p) = ErrMsg err \<and>
      Update m1 (ErrMsg err) = Some m2 \<and>
      m2 = m1\<lparr>errors := errors m @ [err], showErrors := True, isLoading := False\<rparr> \<and>
      (\<forall>x\<in>set (items m2). Path x = p \<longrightarrow> \<not> ChildrenLoaded x) \<and>
      length (items m2) = length (items m) \<and>
      toggleExpansion m2 p = Some (m3, None) \<and>
      toggleExpansion m3 p = Some (m4, Some (LoadChildrenCmd p))"
proof -
  from toggleExpansion_expand [OF wf d] obtain m1 where
    t1: "toggleExpansion m p = Some (m1, Some (LoadChildrenCmd p))"
    and i1: "items m1 = map (\<lambda>e. if Path e = p then e\<lparr>Expanded := \<not> Expanded e\<rparr> else e) (items m)"
    and wf1: "wfStore (cwd m1) (items m1)" and e1: "errors m1 = errors m" by blast
  define err where "err = ''error reading directory '' @ p @ '': '' @ e"
  have r: "runCmd fs m1 (LoadChildrenCmd p) = ErrMsg err"
    using LDC_Inl [OF rd] by (simp add: err_def)
  define m2 where "m2 = m1\<lparr>errors := errors m @ [err], showErrors := True, isLoading := False\<rparr>"
  have u: "Update m1 (ErrMsg err) = Some m2" by (simp add: addError_def m2_def e1)
  have i2: "items m2 = items m1" by (simp add: m2_def)
  have c2: "cwd m2 = cwd m1" by (simp add: m2_def)
  define d1 where "d1 = d\<lparr>Expanded := \<not> Expanded d\<rparr>"
  have "d1 \<in> set (items m1)" unfolding d1_def by (rule flip_in [OF d(1,2) i1])
  then have d1in: "d1 \<in> set (items m2)" by (simp add: i2)
  have d1p: "Path d1 = p" "IsDir d1" "Expanded d1" "\<not> ChildrenLoaded d1"
    using d by (simp_all add: d1_def)
  have wf2: "wfStore (cwd m2) (items m2)" using wf1 by (simp add: i2 c2)
  have nl: "\<forall>x\<in>set (items m2). Path x = p \<longrightarrow> \<not> ChildrenLoaded x"
  proof (intro ballI impI)
    fix x assume x: "x \<in> set (items m2)" and xp: "Path x = p"
    from wfStore_eq [OF wf2 x d1in] xp d1p(1) have "x = d1" by simp
    with d1p(4) show "\<not> ChildrenLoaded x" by simp
  qed
  from toggleExpansion_collapse [OF wf2 d1in d1p(1,2,3)] obtain m3 where
    t3: "toggleExpansion m2 p = Some (m3, None)"
    and i3: "items m3 = map (\<lambda>e. if Path e = p then e\<lparr>Expanded := \<not> Expanded e\<rparr> else e) (items m2)"
    and wf3: "wfStore (cwd m3) (items m3)" by blast
  define d3 where "d3 = d1\<lparr>Expanded := \<not> Expanded d1\<rparr>"
  have d3in: "d3 \<in> set (items m3)" unfolding d3_def by (rule flip_in [OF d1in d1p(1) i3])
  have d3p: "Path d3 = p" "IsDir d3" "\<not> Expanded d3" "\<not> ChildrenLoaded d3"
    using d1p by (simp_all add: d3_def)
  from toggleExpansion_expand [OF wf3 d3in d3p] obtain m4 where
    t4: "toggleExpansion m3 p = Some (m4, Some (LoadChildrenCmd p))" by blast
  have len: "length (items m2) = length (items m)" by (simp add: i2 i1)
  have eq: "m2 = m1\<lparr>errors := errors m @ [err], showErrors := True, isLoading := False\<rparr>"
    by (simp add: m2_def)
  show ?thesis
    by (rule exI [of _ m1], rule exI [of _ err], rule exI [of _ m2], rule exI [of _ m3],
        rule exI [of _ m4])
       (rule conjI [OF t1 conjI [OF r conjI [OF u conjI [OF eq conjI [OF nl conjI [OF len
          conjI [OF t3 t4]]]]]]])
qed

theorem C2_load_failure_amended_witness:
  "wfStore (cwd lockedModel) (items lockedModel) \<and>
   (\<exists>m1 err m2 m3 m4.
      toggleExpansion lockedModel ''/proj/locked'' = Some (m1, Some (LoadChildrenCmd ''/proj/locked'')) \<and>
      runCmd exFs m1 (LoadChildrenCmd ''/proj/locked'') = ErrMsg err \<and>
      Update m1 (ErrMsg err) = Some m2 \<and>
      m2 = m1\<lparr>errors := errors lockedModel @ [err], showErrors := True, isLoading := False\<rparr> \<and>
      (\<forall>x\<in>set (items m2). Path x = ''/proj/locked'' \<longrightarrow> \<not> ChildrenLoaded x) \<and>
      length (items m2) = length (items lockedModel) \<and>
      toggleExpansion m2 ''/proj/locked'' = Some (m3, None) \<and>
      toggleExpansion m3 ''/proj/locked'' = Some (m4, Some (LoadChildrenCmd ''/proj/locked''))) \<and>
   errors lockedFailed = [''error reading directory /proj/locked: permission denied'']"
proof -
  have h: "wfStore (cwd lockedModel) (items lockedModel)" by code_simp
  have d: "hd (items lockedModel) \<in> set (items lockedModel)"
    "Path (hd (items lockedModel)) = ''/proj/locked''" "IsDir (hd (items lockedModel))"
    "\<not> Expanded (hd (items lockedModel))" "\<not> ChildrenLoaded (hd (items lockedModel))"
    by code_simp+
  have rd: "readDir exFs ''/proj/locked'' = Inl ''permission denied''" by code_simp
  have v: "errors lockedFailed = [''error reading directory /proj/locked: permission denied'']"
    by code_simp
  note t = C2_load_failure_amended [OF h d rd]
  show ?thesis by (rule conjI [OF h conjI [OF t v]])
qed

text \<open>
  Claim C2 as stated fails: after the failed load of \<open>/proj/locked\<close> the directory's
  \<open>childrenLoaded\<close> flag is still false, and the second expansion retries the load.
\<close>

theorem C2_childrenLoaded_counterexample:
  "snd (the (toggleExpansion lockedModel ''/proj/locked'')) = Some (LoadChildrenCmd ''/proj/locked'') \<and>
   runCmd exFs lockedExpanded (LoadChildrenCmd ''/proj/locked'') =
     ErrMsg ''error reading directory /proj/locked: permission denied'' \<and>
   map Path (items lockedFailed) = [''/proj/locked''] \<and>
   \<not> ChildrenLoaded (hd (items lockedFailed)) \<and>
   snd (the (toggleExpansion lockedFailed ''/proj/locked'')) = None \<and>
   snd (the (toggleExpansion (fst (the (toggleExpansion lockedFailed ''/proj/locked'')))
          ''/proj/locked'')) = Some (LoadChildrenCmd ''/proj/locked'')"
  by code_simp

text \<open>
  Claim C3, at a failing input. \<open>LoadDirectoryChildren\<close> computes the depth of the children
  from \<open>filepath.Rel(dirPath, dirPath)\<close>, which is \<open>.\<close> for every directory, so every
  lazily loaded child gets depth 1. The directory \<open>/proj/src/vendor\<close> has depth 1 below
  \<open>/proj\<close>; its child \<open>lib.go\<close> is loaded with depth 1, where \<open>LoadFiles\<close> gives the
  same entry depth 2.
\<close>

theorem C3_lazy_children_depth:
  "LoadDirectoryChildren exFs ''/proj/src/vendor'' (ParseGitignore (Some [''vendor''])) False =
     Inr [\<lparr>Path = ''/proj/src/vendor/lib.go'', Name = ''lib.go'', IsDir = False,
           Selected = False, Depth = 1, Expanded = False, GitIgnored = True,
           ChildrenLoaded = False, MatchesContent = False\<rparr>] \<and>
   map (\<lambda>e. (Path e, Depth e)) ignItems =
     [(''/proj/src'', 0), (''/proj/src/main.go'', 1), (''/proj/src/vendor'', 1),
      (''/proj/src/vendor/lib.go'', 2)]"
  by code_simp

text \<open>
  Claim C4. In a store whose entries have distinct clean absolute paths strictly below a
  clean \<open>cwd\<close> (the parent of an entry need not be in the store),
  \<open>refreshVisibleItems\<close> returns, leaves the store as it is and sets the widget's list to
  the entries of the store, in store order, that have depth 0 or all of whose ancestor
  directories strictly between the entry and \<open>cwd\<close> are present in the store as expanded
  directories. So every entry of depth 0 is in the projection; and when the entries of depth
  0 are entries directly below \<open>cwd\<close>, as the loaders assign depths, an entry is in the
  projection if and only if every such ancestor is present in the store as a directory and
  expanded. In the example, \<open>/proj/x/y.txt\<close> is hidden because \<open>/proj/x\<close> is missing
  from the store, and \<open>/proj/lib/a.go\<close> because \<open>/proj/lib\<close> is collapsed.
\<close>

theorem C4_visible_projection:
  assumes ts: "treeStore (cwd m) (items m)"
  shows "\<exists>m'. refreshVisibleItems m = Some m' \<and> items m' = items m \<and>
     listItems m' =
       filter (\<lambda>e. Depth e = 0 \<or>
                 (\<forall>a\<in>set (ancestorDirs (cwd m) (Path e)). openDir (items m) a)) (items m) \<and>
     (\<forall>e\<in>set (items m). Depth e = 0 \<longrightarrow> e \<in> set (listItems m')) \<and>
     ((\<forall>e\<in>set (items m). Depth e = 0 \<longrightarrow> Dir (Path e) = cwd m) \<longrightarrow>
        (\<forall>e. e \<in> set (listItems m') \<longleftrightarrow>
           e \<in> set (items m) \<and>
           (\<forall>a\<in>set (ancestorDirs (cwd m) (Path e)). openDir (items m) a)))"
proof -
  define m' where "m' = m\<lparr>listItems := filter (\<lambda>e. isVisible m e = Some True) (items m)\<rparr>"
  have r: "refreshVisibleItems m = Some m'"
    using refreshVisibleItems_tree [OF ts] by (simp add: m'_def)
  have v: "\<And>e. e \<in> set (items m) \<Longrightarrow>
      isVisible m e = Some True \<longleftrightarrow>
        Depth e = 0 \<or> (\<forall>a\<in>set (ancestorDirs (cwd m) (Path e)). openDir (items m) a)"
    using isVisible_tree [OF ts] by simp
  have l: "listItems m' =
       filter (\<lambda>e. Depth e = 0 \<or>
                 (\<forall>a\<in>set (ancestorDirs (cwd m) (Path e)). openDir (items m) a)) (items m)"
    unfolding m'_def using v by (auto intro: filter_cong)
  have i: "items m' = items m" by (simp add: m'_def)
  have z: "\<forall>e\<in>set (items m). Depth e = 0 \<longrightarrow> e \<in> set (listItems m')"
    unfolding l by simp
  have s: "(\<forall>e\<in>set (items m). Depth e = 0 \<longrightarrow> Dir (Path e) = cwd m) \<longrightarrow>
        (\<forall>e. e \<in> set (listItems m') \<longleftrightarrow>
           e \<in> set (items m) \<and>
           (\<forall>a\<in>set (ancestorDirs (cwd m) (Path e)). openDir (items m) a))"
  proof (intro impI allI)
    fix e assume d0: "\<forall>e\<in>set (items m). Depth e = 0 \<longrightarrow> Dir (Path e) = cwd m"
    have "e \<in> set (items m) \<Longrightarrow> Depth e = 0 \<Longrightarrow> ancestorDirs (cwd m) (Path e) = []"
    proof -
      assume e: "e \<in> set (items m)" and "Depth e = 0"
      with d0 have "Dir (Path e) = cwd m" by simp
      from top_no_ancestorDirs [OF this treeStore_D(1) [OF ts e] treeStore_D(5) [OF ts e]
          treeStore_D(3) [OF ts e] treeStore_D(2) [OF ts e]]
      show ?thesis .
    qed
    then show "e \<in> set (listItems m') \<longleftrightarrow>
           e \<in> set (items m) \<and>
           (\<forall>a\<in>set (ancestorDirs (cwd m) (Path e)). openDir (items m) a)"
      unfolding l by auto
  qed
  show ?thesis
    by (rule exI [of _ m']) (rule conjI [OF r conjI [OF i conjI [OF l conjI [OF z s]]]])
qed

theorem C4_visible_projection_witness:
  "treeStore (cwd orphanModel) (items orphanModel) \<and>
   \<not> wfStore (cwd orphanModel) (items orphanModel) \<and>
   (\<exists>m'. refreshVisibleItems orphanModel = Some m' \<and> items m' = items orphanModel \<and>
     (\<forall>e. e \<in> set (listItems m') \<longleftrightarrow>
        e \<in> set (items orphanModel) \<and>
        (\<forall>a\<in>set (ancestorDirs (cwd orphanModel) (Path e)). openDir (items orphanModel) a))) \<and>
   map Path (listItems (the (refreshVisibleItems orphanModel))) =
     [''/proj/f'', ''/proj/src'', ''/proj/src/main.go'', ''/proj/lib''] \<and>
   ancestorDirs (cwd orphanModel) ''/proj/x/y.txt'' = [''/proj/x''] \<and>
   \<not> openDir (items orphanModel) ''/proj/x'' \<and>
   \<not> openDir (items orphanModel) ''/proj/lib''"
proof -
  have h: "treeStore (cwd orphanModel) (items orphanModel)" by code_simp
  have n: "\<not> wfStore (cwd orphanModel) (items orphanModel)" by code_simp
  have d: "\<forall>e\<in>set (items orphanModel). Depth e = 0 \<longrightarrow> Dir (Path e) = cwd orphanModel"
    by code_simp
  have v: "map Path (listItems (the (refreshVisibleItems orphanModel))) =
     [''/proj/f'', ''/proj/src'', ''/proj/src/main.go'', ''/proj/lib'']" by code_simp
  have a: "ancestorDirs (cwd orphanModel) ''/proj/x/y.txt'' = [''/proj/x'']" by code_simp
  have o: "\<not> openDir (items orphanModel) ''/proj/x''" by code_simp
  have o2: "\<not> openDir (items orphanModel) ''/proj/lib''" by code_simp
  from C4_visible_projection [OF h] d
  have c: "\<exists>m'. refreshVisibleItems orphanModel = Some m' \<and> items m' = items orphanModel \<and>
     (\<forall>e. e \<in> set (listItems m') \<longleftrightarrow>
        e \<in> set (items orphanModel) \<and>
        (\<forall>a\<in>set (ancestorDirs (cwd orphanModel) (Path e)). openDir (items orphanModel) a))"
    by blast
  show ?thesis by (rule conjI [OF h conjI [OF n conjI [OF c conjI [OF v conjI [OF a conjI [OF o o2]]]]]])
qed

text \<open>
  Claim C5. In a store as the loaders build it, delivering the child list of a directory of
  the store (distinct clean paths directly below it) merges it and returns; delivering the
  same list again returns the very same model, so the second merge adds no entry and the
  store keeps its size. After the merge no two entries share a path and the directory's
  \<open>childrenLoaded\<close> flag is set.
\<close>

theorem C5_merge_idempotent:
  assumes wf: "wfStore (cwd m) (items m)"
    and par: "\<exists>d\<in>set (items m). IsDir d \<and> Path d = p"
    and ch: "childrenOf p cs"
  shows "\<exists>m1. Update m (ChildrenLoadedMsg p cs) = Some m1 \<and>
      Update m1 (ChildrenLoadedMsg p cs) = Some m1 \<and>
      length (items m1) =
        length (items m) + length (filter (\<lambda>c. Path c \<notin> Path ` set (items m)) cs) \<and>
      distinct (map Path (items m1)) \<and>
      (\<forall>e\<in>set (items m1). Path e = p \<longrightarrow> ChildrenLoaded e)"
proof -
  define k :: "FileItem \<Rightarrow> FileItem" where
    "k = (\<lambda>e. if Path e = p then e\<lparr>ChildrenLoaded := True\<rparr> else e)"
  define new where "new = filter (\<lambda>c. Path c \<notin> Path ` set (items m)) cs"
  from merge_spec [OF wf par ch] obtain m1 where
    u1: "Update m (ChildrenLoadedMsg p cs) = Some m1"
    and i1: "items m1 = map k (items m) @ new"
    and wf1: "wfStore (cwd m1) (items m1)"
    and l1: "listItems m1 = filter (\<lambda>e. isVisible m1 e = Some True) (items m1)"
    and n1: "\<not> isLoading m1"
    unfolding k_def new_def by blast
  have kP: "\<forall>e\<in>set (items m). Path (k e) = Path e \<and> IsDir (k e) = IsDir e"
    by (simp add: k_def)
  have mp: "map Path (map k (items m)) = map Path (items m)"
    using kP by (intro map_Path_map) simp
  have sp: "Path ` set (map k (items m)) = Path ` set (items m)"
    using mp by (metis set_map)
  from par obtain d where d: "d \<in> set (items m)" "IsDir d" "Path d = p" by blast
  from wfStore_D [OF wf d(1)] d(3) have pc: "cleanAbs p" "p \<noteq> ''/''" by auto
  have kd: "k d \<in> set (items m1)" using d(1) by (simp add: i1)
  have "IsDir (k d) \<and> Path (k d) = p" using d kP by simp
  with kd have par1: "\<exists>d\<in>set (items m1). IsDir d \<and> Path d = p" by blast
  have newp: "\<forall>c\<in>set new. Path c \<noteq> p"
  proof
    fix c assume "c \<in> set new"
    then have "c \<in> set cs" by (simp add: new_def)
    with ch have "Dir (Path c) = p" by (simp add: childrenOf_def)
    with length_Dir [OF pc] show "Path c \<noteq> p" by auto
  qed
  have loaded: "\<forall>e\<in>set (items m1). Path e = p \<longrightarrow> ChildrenLoaded e"
  proof (intro ballI impI)
    fix e assume e: "e \<in> set (items m1)" and ep: "Path e = p"
    from e i1 newp ep have "e \<in> set (map k (items m))" by auto
    then obtain e0 where "e0 \<in> set (items m)" "e = k e0" by auto
    with ep show "ChildrenLoaded e" by (simp add: k_def split: if_splits)
  qed
  from merge_spec [OF wf1 par1 ch] obtain m2 where
    u2: "Update m1 (ChildrenLoadedMsg p cs) = Some m2"
    and i2: "items m2 = map k (items m1) @ filter (\<lambda>c. Path c \<notin> Path ` set (items m1)) cs"
    and l2: "listItems m2 = filter (\<lambda>e. isVisible m2 e = Some True) (items m2)"
    and e2: "m2 = m1\<lparr>items := items m2, listItems := listItems m2, isLoading := False\<rparr>"
    unfolding k_def by blast
  have "\<forall>c\<in>set cs. Path c \<in> Path ` set (items m1)"
  proof
    fix c assume c: "c \<in> set cs"
    show "Path c \<in> Path ` set (items m1)"
    proof (cases "Path c \<in> Path ` set (items m)")
      case True
      then have "Path c \<in> Path ` set (map k (items m))" unfolding sp .
      then show ?thesis unfolding i1 by auto
    next
      case False
      with c have "c \<in> set new" by (simp add: new_def)
      then show ?thesis unfolding i1 by auto
    qed
  qed
  then have f0: "filter (\<lambda>c. Path c \<notin> Path ` set (items m1)) cs = []"
    by (simp add: filter_empty_conv)
  have k0: "map k (items m1) = items m1"
  proof (rule map_idI)
    fix e assume "e \<in> set (items m1)"
    with loaded show "k e = e" by (simp add: k_def)
  qed
  have i21: "items m2 = items m1" unfolding i2 f0 k0 by simp
  have c21: "cwd m2 = cwd m1" by (subst e2) simp
  have v21: "isVisible m2 = isVisible m1" by (rule isVisible_cong_wf [OF wf1 i21 c21])
  have l21: "listItems m2 = listItems m1" unfolding l2 l1 v21 i21 ..
  have "m2 = m1\<lparr>items := items m1, listItems := listItems m1, isLoading := isLoading m1\<rparr>"
    using e2 n1 unfolding i21 l21 by simp
  then have m21: "m2 = m1" by simp
  have u2': "Update m1 (ChildrenLoadedMsg p cs) = Some m1" using u2 m21 by simp
  have len: "length (items m1) =
        length (items m) + length (filter (\<lambda>c. Path c \<notin> Path ` set (items m)) cs)"
    by (simp add: i1 new_def)
  note dist = wfStore_distinct [OF wf1]
  show ?thesis
    by (rule exI [of _ m1]) (rule conjI [OF u1 conjI [OF u2' conjI [OF len conjI [OF dist loaded]]]])
qed


theorem C5_merge_idempotent_witness:
  "wfStore (cwd vendorModel) (items vendorModel) \<and>
   (\<exists>m1. Update vendorModel (ChildrenLoadedMsg ''/proj/src/vendor'' vendorChildren) = Some m1 \<and>
      Update m1 (ChildrenLoadedMsg ''/proj/src/vendor'' vendorChildren) = Some m1 \<and>
      length (items m1) =
        length (items vendorModel) +
        length (filter (\<lambda>c. Path c \<notin> Path ` set (items vendorModel)) vendorChildren) \<and>
      distinct (map Path (items m1)) \<and>
      (\<forall>e\<in>set (items m1). Path e = ''/proj/src/vendor'' \<longrightarrow> ChildrenLoaded e)) \<and>
   map Path (items (the (Update vendorModel
       (ChildrenLoadedMsg ''/proj/src/vendor'' vendorChildren)))) =
     [''/proj/src'', ''/proj/src/main.go'', ''/proj/src/vendor'', ''/proj/src/vendor/lib.go'']"
proof -
  have h: "wfStore (cwd vendorModel) (items vendorModel)" by code_simp
  have p: "\<exists>d\<in>set (items vendorModel). IsDir d \<and> Path d = ''/proj/src/vendor''" by code_simp
  have c: "childrenOf ''/proj/src/vendor'' vendorChildren" by code_simp
  have v: "map Path (items (the (Update vendorModel
       (ChildrenLoadedMsg ''/proj/src/vendor'' vendorChildren)))) =
     [''/proj/src'', ''/proj/src/main.go'', ''/proj/src/vendor'', ''/proj/src/vendor/lib.go'']"
    by code_simp
  note t = C5_merge_idempotent [OF h p c]
  show ?thesis by (rule conjI [OF h conjI [OF t v]])
qed

text \<open>
  Claim C6. In a store as the loaders build it, every selection operation (a toggle with or
  without a forced value, select-all, deselect-all, select-by-extension) returns, changes no
  field other than \<open>selected\<close>, and leaves every ignored entry that was unselected
  unselected. A toggle on an ignored path leaves the whole model as it was; toggles,
  select-all and select-by-extension leave every ignored entry exactly as it was, so neither
  the cascade nor the ancestor recomputation sets or clears it.
\<close>

theorem C6_ignored_isolation:
  assumes wf: "wfStore (cwd m) (items m)"
  shows "\<exists>m'. applySelOp m op = Some m' \<and>
     (\<forall>p f. op = Toggle p f \<and> isGitIgnored m p \<longrightarrow> m' = m) \<and>
     list_all2 (\<lambda>e e'. e' = e\<lparr>Selected := Selected e'\<rparr> \<and>
        (isGitIgnored m (Path e) \<longrightarrow>
           (\<not> Selected e \<longrightarrow> \<not> Selected e') \<and> (op \<noteq> DeselectAll \<longrightarrow> e' = e)))
       (items m) (items m')"
proof -
  have gen: "\<And>r. (\<exists>m' k. r = Some m' \<and>
      m' = m\<lparr>items := map k (items m), listItems := listItems m'\<rparr> \<and>
      (\<forall>e\<in>set (items m). k e = e\<lparr>Selected := Selected (k e)\<rparr> \<and>
         (isGitIgnored m (Path e) \<longrightarrow> k e = e))) \<Longrightarrow>
      \<exists>m'. r = Some m' \<and>
       list_all2 (\<lambda>e e'. e' = e\<lparr>Selected := Selected e'\<rparr> \<and>
        (isGitIgnored m (Path e) \<longrightarrow>
           (\<not> Selected e \<longrightarrow> \<not> Selected e') \<and> (op \<noteq> DeselectAll \<longrightarrow> e' = e)))
       (items m) (items m')"
  proof -
    fix r
    assume "\<exists>m' k. r = Some m' \<and>
      m' = m\<lparr>items := map k (items m), listItems := listItems m'\<rparr> \<and>
      (\<forall>e\<in>set (items m). k e = e\<lparr>Selected := Selected (k e)\<rparr> \<and>
         (isGitIgnored m (Path e) \<longrightarrow> k e = e))"
    then obtain m' k where r: "r = Some m'"
      and mk: "m' = m\<lparr>items := map k (items m), listItems := listItems m'\<rparr>"
      and k: "\<forall>e\<in>set (items m). k e = e\<lparr>Selected := Selected (k e)\<rparr> \<and>
         (isGitIgnored m (Path e) \<longrightarrow> k e = e)" by blast
    have im: "items m' = map k (items m)" by (subst mk) simp
    have "list_all2 (\<lambda>e e'. e' = e\<lparr>Selected := Selected e'\<rparr> \<and>
        (isGitIgnored m (Path e) \<longrightarrow>
           (\<not> Selected e \<longrightarrow> \<not> Selected e') \<and> (op \<noteq> DeselectAll \<longrightarrow> e' = e)))
       (items m) (items m')"
      unfolding im list_all2_map_same using k by auto
    with r show "\<exists>m'. r = Some m' \<and>
       list_all2 (\<lambda>e e'. e' = e\<lparr>Selected := Selected e'\<rparr> \<and>
        (isGitIgnored m (Path e) \<longrightarrow>
           (\<not> Selected e \<longrightarrow> \<not> Selected e') \<and> (op \<noteq> DeselectAll \<longrightarrow> e' = e)))
       (items m) (items m')" by blast
  qed
  show ?thesis
  proof (cases op)
    case (Toggle p f)
    show ?thesis
    proof (cases "isGitIgnored m p")
      case True
      then have "toggleSelection m p f = Some m" by (intro toggle_noop) simp
      moreover have "list_all2 (\<lambda>e e'. e' = e\<lparr>Selected := Selected e'\<rparr> \<and>
        (isGitIgnored m (Path e) \<longrightarrow>
           (\<not> Selected e \<longrightarrow> \<not> Selected e') \<and> (op \<noteq> DeselectAll \<longrightarrow> e' = e)))
       (items m) (items m)" by (simp add: list_all2_same)
      ultimately show ?thesis using Toggle by simp
    next
      case False
      with gen [OF toggle_ignored [OF wf, of p f]] Toggle show ?thesis by auto
    qed
  next
    case SelectAll
    with gen [OF selectAllFrom_ignored [OF wf, of "listItems m"]] show ?thesis
      by (simp add: selectAll_def)
  next
    case DeselectAll
    from deselectAll_spec [OF wf] obtain m' where d: "deselectAll m = Some m'"
      and mk: "m' = m\<lparr>items := map (\<lambda>it. it\<lparr>Selected := False\<rparr>) (items m),
                       listItems := listItems m'\<rparr>" by blast
    have im: "items m' = map (\<lambda>it. it\<lparr>Selected := False\<rparr>) (items m)" by (subst mk) simp
    have "list_all2 (\<lambda>e e'. e' = e\<lparr>Selected := Selected e'\<rparr> \<and>
        (isGitIgnored m (Path e) \<longrightarrow>
           (\<not> Selected e \<longrightarrow> \<not> Selected e') \<and> (op \<noteq> DeselectAll \<longrightarrow> e' = e)))
       (items m) (items m')"
      unfolding im list_all2_map_same using DeselectAll by simp
    with d DeselectAll show ?thesis by simp
  next
    case (SelectByExtension ext)
    with gen [OF selectByExtensionFrom_ignored [OF wf, of _ "items m"]] show ?thesis
      by (simp add: selectByExtension_def)
  qed
qed

theorem C6_ignored_isolation_witness:
  "wfStore (cwd ignModel) (items ignModel) \<and>
   (\<exists>m'. applySelOp ignModel (Toggle ''/proj/src'' None) = Some m' \<and>
     (\<forall>p f. Toggle ''/proj/src'' None = Toggle p f \<and> isGitIgnored ignModel p \<longrightarrow> m' = ignModel) \<and>
     list_all2 (\<lambda>e e'. e' = e\<lparr>Selected := Selected e'\<rparr> \<and>
        (isGitIgnored ignModel (Path e) \<longrightarrow>
           (\<not> Selected e \<longrightarrow> \<not> Selected e') \<and>
           (Toggle ''/proj/src'' None \<noteq> DeselectAll \<longrightarrow> e' = e)))
       (items ignModel) (items m')) \<and>
   map (\<lambda>e. isGitIgnored ignModel (Path e)) (items ignModel) = [False, False, True, True] \<and>
   map Selected (items (the (applySelOp ignModel (Toggle ''/proj/src'' None)))) =
     [True, True, False, False]"
proof -
  have h: "wfStore (cwd ignModel) (items ignModel)" by code_simp
  have i: "map (\<lambda>e. isGitIgnored ignModel (Path e)) (items ignModel) = [False, False, True, True]"
    by code_simp
  have v: "map Selected (items (the (applySelOp ignModel (Toggle ''/proj/src'' None)))) =
     [True, True, False, False]" by code_simp
  note c = C6_ignored_isolation [OF h, of "Toggle ''/proj/src'' None"]
  show ?thesis by (rule conjI [OF h conjI [OF c conjI [OF i v]]])
qed

text \<open>
  Claim C8, as amended. Let the store hold entries with distinct clean absolute paths
  strictly below a clean \<open>cwd\<close>, let the query be non-empty and let at least one file
  (an entry that is not a directory) have a name equal to the query after both are lowered
  by \<open>ToLower\<close>. Then \<open>executeCustomSearch\<close> returns; it clears the content marks of
  the store and changes nothing else in it, it is in search-result mode, and the widget's
  list is sorted by path, holds no path twice and holds exactly the files whose lowered name
  equals the lowered query and the directories of the store that are ancestors of such a
  file. So no file whose name merely contains the query (\<open>main.go.bak\<close> for the query
  \<open>main.go\<close>) is in the list: the pass over partial matches does not contribute. The
  proof uses no property of \<open>ToLower\<close>.
\<close>

theorem C8_exact_match_amended:
  assumes ts: "treeStore (cwd m) (items m)"
    and q: "query \<noteq> []"
    and ex: "\<exists>e\<in>set (items m). \<not> IsDir e \<and> ToLower (Name e) = ToLower query"
  shows "\<exists>m'. executeCustomSearch fs m query = Some m' \<and>
     items m' = map (\<lambda>it. it\<lparr>MatchesContent := False\<rparr>) (items m) \<and>
     isInSearchResults m' \<and>
     sorted (map Path (listItems m')) \<and> distinct (map Path (listItems m')) \<and>
     (\<forall>e. e \<in> set (listItems m') \<longleftrightarrow>
        e \<in> set (items m') \<and>
        ((\<not> IsDir e \<and> ToLower (Name e) = ToLower query) \<or>
         (IsDir e \<and> (\<exists>x\<in>set (items m'). (\<not> IsDir x \<and> ToLower (Name x) = ToLower query) \<and>
                        prefix (Path e @ ''/'') (Path x)))))"
proof -
  define P :: "FileItem \<Rightarrow> bool" where "P = (\<lambda>it. \<not> IsDir it \<and> ToLower (Name it) = ToLower query)"
  define k :: "FileItem \<Rightarrow> FileItem" where "k = (\<lambda>it. it\<lparr>MatchesContent := False\<rparr>)"
  define m1 where "m1 = m\<lparr>isInSearchResults := True, items := map k (items m)\<rparr>"
  have i1: "items m1 = map k (items m)" and c1: "cwd m1 = cwd m" by (simp_all add: m1_def)
  have kP: "\<And>e. Path (k e) = Path e" "\<And>e. P (k e) = P e" by (simp_all add: k_def P_def)
  have ts1: "treeStore (cwd m1) (items m1)"
    unfolding i1 c1 using treeStore_map [OF ts] kP(1) by simp
  from ex obtain e where "e \<in> set (items m)" "P e" by (auto simp: P_def)
  then have "k e \<in> set (items m1)" "P (k e)" using kP(2) by (simp_all add: i1)
  then have ne: "filter P (items m1) \<noteq> []" by (auto simp: filter_empty_conv)
  from exactPass_spec [OF ts1, of P] obtain st where
    r: "exactLoop m1 (filter P (items m1)) ([], []) = Some st"
    and d: "distinct (map Path (fst st))"
    and c: "\<forall>e. e \<in> set (fst st) \<longleftrightarrow>
        e \<in> set (items m1) \<and>
        (P e \<or> (IsDir e \<and> (\<exists>x\<in>set (items m1). P x \<and> prefix (Path e @ ''/'') (Path x))))"
    by (elim exE conjE)
  define m' where "m' = m1\<lparr>listItems := sort_key Path (fst st)\<rparr>"
  have run: "executeCustomSearch fs m query = Some m'"
    using q ne r
    by (simp add: executeCustomSearch_def Let_def m1_def [unfolded k_def, symmetric]
        P_def [symmetric] m'_def)
  have it: "items m' = map (\<lambda>it. it\<lparr>MatchesContent := False\<rparr>) (items m)"
    by (simp add: m'_def i1 k_def)
  have it1: "items m' = items m1" by (simp add: m'_def)
  have sr: "isInSearchResults m'" by (simp add: m'_def m1_def)
  have li: "listItems m' = sort_key Path (fst st)" by (simp add: m'_def)
  have so: "sorted (map Path (listItems m'))" unfolding li by (rule sort_key_Path(1) [OF d])
  have di: "distinct (map Path (listItems m'))" unfolding li by (rule sort_key_Path(2) [OF d])
  have ch: "\<forall>e. e \<in> set (listItems m') \<longleftrightarrow>
        e \<in> set (items m') \<and>
        ((\<not> IsDir e \<and> ToLower (Name e) = ToLower query) \<or>
         (IsDir e \<and> (\<exists>x\<in>set (items m'). (\<not> IsDir x \<and> ToLower (Name x) = ToLower query) \<and>
                        prefix (Path e @ ''/'') (Path x))))"
    unfolding li sort_key_Path(3) [OF d] it1 using c unfolding P_def by simp
  show ?thesis
    by (rule exI [of _ m'])
       (rule conjI [OF run conjI [OF it conjI [OF sr conjI [OF so conjI [OF di ch]]]]])
qed

theorem C8_exact_match_amended_witness:
  "treeStore (cwd mainGoModel) (items mainGoModel) \<and>
   (\<exists>m'. executeCustomSearch exFs mainGoModel ''main.go'' = Some m' \<and>
     items m' = map (\<lambda>it. it\<lparr>MatchesContent := False\<rparr>) (items mainGoModel) \<and>
     isInSearchResults m' \<and>
     sorted (map Path (listItems m')) \<and> distinct (map Path (listItems m')) \<and>
     (\<forall>e. e \<in> set (listItems m') \<longleftrightarrow>
        e \<in> set (items m') \<and>
        ((\<not> IsDir e \<and> ToLower (Name e) = ToLower ''main.go'') \<or>
         (IsDir e \<and> (\<exists>x\<in>set (items m'). (\<not> IsDir x \<and> ToLower (Name x) = ToLower ''main.go'') \<and>
                        prefix (Path e @ ''/'') (Path x)))))) \<and>
   map_option (\<lambda>m'. map Path (listItems m')) (executeCustomSearch exFs mainGoModel ''main.go'') =
     Some [''/proj/Main.go'', ''/proj/cmd'', ''/proj/cmd/main.go'']"
proof -
  have h: "treeStore (cwd mainGoModel) (items mainGoModel)" by code_simp
  have q: "''main.go'' \<noteq> []" by simp
  have x: "\<exists>e\<in>set (items mainGoModel). \<not> IsDir e \<and> ToLower (Name e) = ToLower ''main.go''"
    by code_simp
  have v: "map_option (\<lambda>m'. map Path (listItems m')) (executeCustomSearch exFs mainGoModel ''main.go'') =
     Some [''/proj/Main.go'', ''/proj/cmd'', ''/proj/cmd/main.go'']" by code_simp
  note t = C8_exact_match_amended [OF h q x, of exFs]
  show ?thesis by (rule conjI [OF h conjI [OF t v]])
qed

text \<open>
  Claim C8 as stated fails, since only files are candidates of the exact pass: in the store
  with the directory \<open>/proj/docs\<close> and the file \<open>/proj/docs.txt\<close>, the name of the
  directory equals the query \<open>docs\<close>, yet the result is the partial match
  \<open>/proj/docs.txt\<close> alone.
\<close>

theorem C8_directory_name_counterexample:
  "IsDir (hd (items docsTxtModel)) \<and>
   ToLower (Name (hd (items docsTxtModel))) = ToLower ''docs'' \<and>
   map_option (\<lambda>m'. map Path (listItems m')) (executeCustomSearch exFs docsTxtModel ''docs'') =
     Some [''/proj/docs.txt'']"
  by code_simp

text \<open>
  Claim C9. When the load of a directory of the store succeeds (whether or not the directory
  is selected), the message it produces is merged and \<open>Update\<close> returns; every entry that
  was in the store keeps its \<open>selected\<close> field, and the entries appended by the merge, the
  delivered children whose paths were not in the store, are all unselected.
\<close>

theorem C9_late_children_unselected:
  assumes wf: "wfStore (cwd m) (items m)"
    and d: "d \<in> set (items m)" "IsDir d" "Path d = p"
    and rd: "readDir fs p = Inr entries" and v: "validEntries entries"
  shows "\<exists>cs m'. runCmd fs m (LoadChildrenCmd p) = ChildrenLoadedMsg p cs \<and>
      Update m (ChildrenLoadedMsg p cs) = Some m' \<and>
      map Selected (take (length (items m)) (items m')) = map Selected (items m) \<and>
      drop (length (items m)) (items m') = filter (\<lambda>c. Path c \<notin> Path ` set (items m)) cs \<and>
      (\<forall>c\<in>set (drop (length (items m)) (items m')). \<not> Selected c)"
proof -
  from wfStore_D [OF wf d(1)] d(3) have pc: "cleanAbs p" by simp
  from LDC_children [OF pc rd v, of "gitignoreRegexp m" "showHiddenFiles m"] obtain cs where
    l: "LoadDirectoryChildren fs p (gitignoreRegexp m) (showHiddenFiles m) = Inr cs"
    and ch: "childrenOf p cs" and un: "\<forall>c\<in>set cs. \<not> Selected c" by blast
  have r: "runCmd fs m (LoadChildrenCmd p) = ChildrenLoadedMsg p cs" by (simp add: l)
  have par: "\<exists>d\<in>set (items m). IsDir d \<and> Path d = p" using d by blast
  define k :: "FileItem \<Rightarrow> FileItem" where
    "k = (\<lambda>e. if Path e = p then e\<lparr>ChildrenLoaded := True\<rparr> else e)"
  define new where "new = filter (\<lambda>c. Path c \<notin> Path ` set (items m)) cs"
  from merge_spec [OF wf par ch] obtain m' where
    u: "Update m (ChildrenLoadedMsg p cs) = Some m'"
    and i: "items m' = map k (items m) @ new" unfolding k_def new_def by blast
  have ks: "\<And>e. Selected (k e) = Selected e" by (simp add: k_def)
  have "take (length (items m)) (items m') = map k (items m)" unfolding i by simp
  then have a: "map Selected (take (length (items m)) (items m')) = map Selected (items m)"
    by (simp add: ks o_def)
  have b: "drop (length (items m)) (items m') =
      filter (\<lambda>c. Path c \<notin> Path ` set (items m)) cs"
    unfolding i new_def by simp
  have c: "\<forall>c\<in>set (drop (length (items m)) (items m')). \<not> Selected c"
    unfolding b using un by simp
  show ?thesis
    by (rule exI [of _ cs], rule exI [of _ m'])
       (rule conjI [OF r conjI [OF u conjI [OF a conjI [OF b c]]]])
qed

theorem C9_late_children_unselected_witness:
  "wfStore (cwd docsModel) (items docsModel) \<and>
   (\<exists>cs m'. runCmd exFs docsModel (LoadChildrenCmd ''/proj/docs'') = ChildrenLoadedMsg ''/proj/docs'' cs \<and>
      Update docsModel (ChildrenLoadedMsg ''/proj/docs'' cs) = Some m' \<and>
      map Selected (take (length (items docsModel)) (items m')) = map Selected (items docsModel) \<and>
      drop (length (items docsModel)) (items m') =
        filter (\<lambda>c. Path c \<notin> Path ` set (items docsModel)) cs \<and>
      (\<forall>c\<in>set (drop (length (items docsModel)) (items m')). \<not> Selected c)) \<and>
   map (\<lambda>e. (Path e, Selected e))
     (items (the (Update docsModel (runCmd exFs docsModel (LoadChildrenCmd ''/proj/docs''))))) =
     [(''/proj/docs'', True), (''/proj/docs/guide.md'', False)]"
proof -
  have h: "wfStore (cwd docsModel) (items docsModel)" by code_simp
  have d: "hd (items docsModel) \<in> set (items docsModel)" "IsDir (hd (items docsModel))"
    "Path (hd (items docsModel)) = ''/proj/docs''" by code_simp+
  have rd: "readDir exFs ''/proj/docs'' =
      Inr [\<lparr>entName = ''guide.md'', entIsDir = False, entInfoOk = True\<rparr>]" by code_simp
  have ve: "validEntries [\<lparr>entName = ''guide.md'', entIsDir = False, entInfoOk = True\<rparr>]"
    by code_simp
  have v: "map (\<lambda>e. (Path e, Selected e))
     (items (the (Update docsModel (runCmd exFs docsModel (LoadChildrenCmd ''/proj/docs''))))) =
     [(''/proj/docs'', True), (''/proj/docs/guide.md'', False)]" by code_simp
  note t = C9_late_children_unselected [OF h d rd ve]
  show ?thesis by (rule conjI [OF h conjI [OF t v]])
qed

section \<open>The claims\<close>

text \<open>
  Claim C10. Toggling the selection of a directory \<open>D\<close> (with or without a forced value)
  returns, keeps every field of every entry other than \<open>selected\<close>, and changes
  \<open>selected\<close> only for \<open>D\<close> itself, for entries whose path extends \<open>D\<close>'s path
  followed by the separator, and for directories that are ancestors of \<open>D\<close>. An entry
  whose path merely begins with \<open>D\<close>'s path without a separator boundary (\<open>src2\<close> beside
  \<open>src\<close>) is returned unchanged.
\<close>

theorem C10_toggle_frame:
  fixes force :: "bool option"
  assumes wf: "wfStore (cwd m) (items m)"
  shows "\<exists>m'. toggleSelection m D force = Some m' \<and>
     list_all2 (\<lambda>e e'. e' = e\<lparr>Selected := Selected e'\<rparr> \<and>
        (Selected e' \<noteq> Selected e \<longrightarrow>
           Path e = D \<or> prefix (D @ ''/'') (Path e) \<or> (IsDir e \<and> prefix (Path e @ ''/'') D)) \<and>
        (prefix D (Path e) \<and> Path e \<noteq> D \<and> \<not> prefix (D @ ''/'') (Path e) \<longrightarrow> e' = e))
       (items m) (items m')"
proof -
  from toggle_frame [OF wf, of D force] obtain m' k where
    t: "toggleSelection m D force = Some m'"
    and mk: "m' = m\<lparr>items := map k (items m), listItems := listItems m'\<rparr>"
    and k: "\<forall>e\<in>set (items m). k e = e\<lparr>Selected := Selected (k e)\<rparr> \<and>
         (k e \<noteq> e \<longrightarrow> \<not> isGitIgnored m D \<and>
            (Path e = D \<or> (prefix (D @ ''/'') (Path e) \<and> \<not> isGitIgnored m (Path e)) \<or>
             prefix (Path e @ ''/'') D))"
    by blast
  have im: "items m' = map k (items m)" by (subst mk) simp
  have "\<forall>e\<in>set (items m). k e = e\<lparr>Selected := Selected (k e)\<rparr> \<and>
        (Selected (k e) \<noteq> Selected e \<longrightarrow>
           Path e = D \<or> prefix (D @ ''/'') (Path e) \<or> (IsDir e \<and> prefix (Path e @ ''/'') D)) \<and>
        (prefix D (Path e) \<and> Path e \<noteq> D \<and> \<not> prefix (D @ ''/'') (Path e) \<longrightarrow> k e = e)"
  proof
    fix e assume e: "e \<in> set (items m)"
    from k e have k1: "k e = e\<lparr>Selected := Selected (k e)\<rparr>"
      and k2: "k e \<noteq> e \<Longrightarrow> \<not> isGitIgnored m D \<and>
            (Path e = D \<or> (prefix (D @ ''/'') (Path e) \<and> \<not> isGitIgnored m (Path e)) \<or>
             prefix (Path e @ ''/'') D)" by auto
    have a: "Selected (k e) \<noteq> Selected e \<longrightarrow>
           Path e = D \<or> prefix (D @ ''/'') (Path e) \<or> (IsDir e \<and> prefix (Path e @ ''/'') D)"
    proof
      assume "Selected (k e) \<noteq> Selected e"
      then have ne: "k e \<noteq> e" by auto
      from k2 [OF ne] have "Path e = D \<or> prefix (D @ ''/'') (Path e) \<or> prefix (Path e @ ''/'') D"
        by auto
      moreover have "prefix (Path e @ ''/'') D \<Longrightarrow> IsDir e"
      proof -
        assume anc: "prefix (Path e @ ''/'') D"
        have "\<exists>x\<in>set (items m). Path x = D"
        proof (rule ccontr)
          assume "\<not> (\<exists>x\<in>set (items m). Path x = D)"
          then have "\<forall>x\<in>set (items m). Path x \<noteq> D" by blast
          then have "toggleSelection m D force = Some m" by (intro toggle_noop) simp
          with t im have "map k (items m) = items m" by simp
          then have "k e = e" using e by (metis map_eq_conv list.map_id0 id_apply list.map_id)
          with ne show False by simp
        qed
        then obtain x where "x \<in> set (items m)" "Path x = D" by blast
        with wf_anc_isDir [OF wf e] anc show "IsDir e" by auto
      qed
      ultimately show "Path e = D \<or> prefix (D @ ''/'') (Path e) \<or>
          (IsDir e \<and> prefix (Path e @ ''/'') D)" by blast
    qed
    have b: "prefix D (Path e) \<and> Path e \<noteq> D \<and> \<not> prefix (D @ ''/'') (Path e) \<longrightarrow> k e = e"
    proof (rule impI, rule ccontr)
      assume h: "prefix D (Path e) \<and> Path e \<noteq> D \<and> \<not> prefix (D @ ''/'') (Path e)"
        and ne: "k e \<noteq> e"
      from k2 [OF ne] h have "prefix (Path e @ ''/'') D" by auto
      then have "length (Path e) < length D" by (auto dest: prefix_length_le)
      moreover from h have "length D \<le> length (Path e)" by (auto dest: prefix_length_le)
      ultimately show False by simp
    qed
    from k1 a b show "k e = e\<lparr>Selected := Selected (k e)\<rparr> \<and>
        (Selected (k e) \<noteq> Selected e \<longrightarrow>
           Path e = D \<or> prefix (D @ ''/'') (Path e) \<or> (IsDir e \<and> prefix (Path e @ ''/'') D)) \<and>
        (prefix D (Path e) \<and> Path e \<noteq> D \<and> \<not> prefix (D @ ''/'') (Path e) \<longrightarrow> k e = e)"
      by blast
  qed
  then have "list_all2 (\<lambda>e e'. e' = e\<lparr>Selected := Selected e'\<rparr> \<and>
        (Selected e' \<noteq> Selected e \<longrightarrow>
           Path e = D \<or> prefix (D @ ''/'') (Path e) \<or> (IsDir e \<and> prefix (Path e @ ''/'') D)) \<and>
        (prefix D (Path e) \<and> Path e \<noteq> D \<and> \<not> prefix (D @ ''/'') (Path e) \<longrightarrow> e' = e))
       (items m) (items m')"
    unfolding im list_all2_map_same .
  with t show ?thesis by blast
qed

theorem C10_toggle_frame_witness:
  "wfStore (cwd exModel) (items exModel) \<and>
   (\<exists>m'. toggleSelection exModel ''/proj/src'' None = Some m' \<and>
     list_all2 (\<lambda>e e'. e' = e\<lparr>Selected := Selected e'\<rparr> \<and>
        (Selected e' \<noteq> Selected e \<longrightarrow>
           Path e = ''/proj/src'' \<or> prefix (''/proj/src'' @ ''/'') (Path e) \<or>
           (IsDir e \<and> prefix (Path e @ ''/'') ''/proj/src'')) \<and>
        (prefix ''/proj/src'' (Path e) \<and> Path e \<noteq> ''/proj/src'' \<and>
           \<not> prefix (''/proj/src'' @ ''/'') (Path e) \<longrightarrow> e' = e))
       (items exModel) (items m')) \<and>
   map Selected (items (the (toggleSelection exModel ''/proj/src'' None))) =
     [True, True, False, False, False]"
proof -
  have h: "wfStore (cwd exModel) (items exModel)" by code_simp
  have v: "map Selected (items (the (toggleSelection exModel ''/proj/src'' None))) =
     [True, True, False, False, False]" by code_simp
  from C10_toggle_frame [OF h, of "''/proj/src''" None] h v show ?thesis by blast
qed

end
